theory Spec2Isabelle
  imports Complex_Main "HOL-Library.Sublist"
begin

section \<open>Data model of the gallery component (src/App.tsx)\<close>

text \<open>
  Strings of the program are modelled as \<open>string\<close>, read as the byte sequence of the
  text. The string operations used by the component are written out below the way the
  component calls them.
\<close>

text \<open>The interface \<open>ImageData\<close>: fields \<open>id\<close>, \<open>name\<close>, \<open>src\<close>, \<open>size\<close>, \<open>uploadDate\<close>.\<close>

record image_data =
  img_id :: string
  img_name :: string
  img_src :: string
  img_size :: nat
  img_uploadDate :: string

text \<open>
  What the upload handler reads of a browser \<open>File\<close>: \<open>file.name\<close>, \<open>file.type\<close> and
  \<open>file.size\<close>.
\<close>

record File =
  file_name :: string
  file_type :: string
  file_size :: nat

text \<open>
  The component state: the \<open>useState\<close> cells, the \<open>value\<close> of the element behind
  \<open>fileInputRef\<close> (\<open>None\<close> when \<open>fileInputRef.current\<close> is null) and whether
  \<open>document.documentElement.classList\<close> holds \<open>dark\<close>.
\<close>

record app_state =
  images :: "image_data list"
  searchTerm :: string
  isDarkMode :: bool
  dragActive :: bool
  uploading :: bool
  selectedImage :: "image_data option"
  showDeleteConfirm :: "string option"
  fileInputValue :: "string option"
  darkClass :: bool

text \<open>The two \<open>localStorage\<close> slots the component uses: \<open>gallery-images\<close> and \<open>theme\<close>.\<close>

record storage =
  gallery_images :: "string option"
  theme :: "string option"

text \<open>The state of the first render: the initial values given to \<open>useState\<close>.\<close>

definition initial_state :: "string option \<Rightarrow> app_state" where
  "initial_state inp =
     \<lparr>images = [], searchTerm = [], isDarkMode = False, dragActive = False,
      uploading = False, selectedImage = None, showDeleteConfirm = None,
      fileInputValue = inp, darkClass = False\<rparr>"

text \<open>
  What the handler takes from outside the component: the outcome of
  \<open>FileReader.readAsDataURL\<close> on a file (\<open>Inl\<close> is the error event that rejects the
  promise of \<open>fileToBase64\<close>), and, for the \<open>k\<close>-th file of a batch, the text
  \<open>Date.now() + Math.random().toString(36).substr(2, 9)\<close> and the text
  \<open>new Date().toISOString()\<close>.
\<close>

datatype read_error = ReadError string

record env =
  readAsDataURL :: "File \<Rightarrow> read_error + string"
  genId :: "nat \<Rightarrow> string"
  isoNow :: "nat \<Rightarrow> string"

section \<open>String operations\<close>

text \<open>\<open>s.startsWith(p)\<close>.\<close>

definition startsWith :: "string \<Rightarrow> string \<Rightarrow> bool" where
  "startsWith s p = (take (length p) s = p)"

text \<open>\<open>s.includes(q)\<close>: \<open>q\<close> occurs in \<open>s\<close> at some index.\<close>

fun includes_str :: "string \<Rightarrow> string \<Rightarrow> bool" where
  "includes_str [] q = (q = [])"
| "includes_str (c # cs) q = (startsWith (c # cs) q \<or> includes_str cs q)"

text \<open>
  \<open>s.toLowerCase()\<close> is a function of the language, with the case tables of Unicode and
  rules that look at the neighbours of a letter; the view filter below takes it as a
  parameter. On a text of ASCII characters it turns the letters \<open>A\<close> to \<open>Z\<close> into
  \<open>a\<close> to \<open>z\<close> and keeps every other character, which is \<open>map ascii_lower\<close>.
\<close>

definition ascii_lower :: "char \<Rightarrow> char" where
  "ascii_lower c =
     (let n = (of_char c :: nat) in if 65 \<le> n \<and> n \<le> 90 then char_of (n + 32) else c)"

text \<open>
  \<open>s.replace(/\.[^/.]+$/, "")\<close>: the leftmost index at which a dot is followed, up to the
  end of the text, by one or more characters that are neither a slash nor a dot; the
  text from that index on is removed. Without such an index the text is returned as it
  is.
\<close>

definition ext_chars :: "string \<Rightarrow> bool" where
  "ext_chars t = (t \<noteq> [] \<and> list_all (\<lambda>c. c \<noteq> CHR ''/'' \<and> c \<noteq> CHR ''.'') t)"

fun strip_ext :: "string \<Rightarrow> string" where
  "strip_ext [] = []"
| "strip_ext (c # cs) = (if c = CHR ''.'' \<and> ext_chars cs then [] else c # strip_ext cs)"

section \<open>Ingestion: \<open>handleFileUpload\<close>\<close>

text \<open>The object literal built for an accepted file, the \<open>k\<close>-th of its batch.\<close>

definition mk_image :: "env \<Rightarrow> nat \<Rightarrow> File \<Rightarrow> string \<Rightarrow> image_data" where
  "mk_image E k f base64 =
     \<lparr>img_id = genId E k, img_name = strip_ext (file_name f), img_src = base64,
      img_size = file_size f, img_uploadDate = isoNow E k\<rparr>"

text \<open>
  The \<open>for\<close> loop over \<open>fileArray\<close>, with \<open>newImages\<close> as accumulator. A rejected read
  leaves the loop (the \<open>await\<close> throws), which is the \<open>Inl\<close> result.
\<close>

fun upload_loop :: "env \<Rightarrow> nat \<Rightarrow> File list \<Rightarrow> image_data list \<Rightarrow> read_error + image_data list" where
  "upload_loop E k [] newImages = Inr newImages"
| "upload_loop E k (f # fs) newImages =
     (if startsWith (file_type f) ''image/'' then
        (case readAsDataURL E f of
           Inl err \<Rightarrow> Inl err
         | Inr base64 \<Rightarrow> upload_loop E (Suc k) fs (newImages @ [mk_image E k f base64]))
      else upload_loop E (Suc k) fs newImages)"

text \<open>The \<open>finally\<close> block.\<close>

definition upload_finally :: "app_state \<Rightarrow> app_state" where
  "upload_finally s =
     s\<lparr>uploading := False,
       fileInputValue := (case fileInputValue s of None \<Rightarrow> None | Some v \<Rightarrow> Some [])\<rparr>"

text \<open>
  The handler run to its end. \<open>None\<close> is the null \<open>FileList\<close>. The \<open>catch\<close> block only
  logs, so a rejected read goes straight to \<open>finally\<close>.
\<close>

definition handleFileUpload :: "env \<Rightarrow> app_state \<Rightarrow> File list option \<Rightarrow> app_state" where
  "handleFileUpload E s files =
     (case files of
        None \<Rightarrow> s
      | Some fileArray \<Rightarrow>
          if fileArray = [] then s
          else
            (let s1 = s\<lparr>uploading := True\<rparr> in
             case upload_loop E 0 fileArray [] of
               Inr newImages \<Rightarrow> upload_finally (s1\<lparr>images := images s1 @ newImages\<rparr>)
             | Inl err \<Rightarrow> upload_finally s1))"

section \<open>Deletion and the view filter\<close>

text \<open>\<open>deleteImage\<close>: the updater given to \<open>setImages\<close>, then \<open>setShowDeleteConfirm(null)\<close>.\<close>

definition delete_from :: "string \<Rightarrow> image_data list \<Rightarrow> image_data list" where
  "delete_from imageId prev = filter (\<lambda>img. img_id img \<noteq> imageId) prev"

definition deleteImage :: "string \<Rightarrow> app_state \<Rightarrow> app_state" where
  "deleteImage imageId s =
     s\<lparr>images := delete_from imageId (images s), showDeleteConfirm := None\<rparr>"

text \<open>
  \<open>filteredImages\<close>, derived at every render from \<open>images\<close> and \<open>searchTerm\<close>. The
  first argument is \<open>String.prototype.toLowerCase\<close>.
\<close>

definition filter_images :: "(string \<Rightarrow> string) \<Rightarrow> image_data list \<Rightarrow> string \<Rightarrow> image_data list" where
  "filter_images toLowerCase imgs query =
     filter (\<lambda>image. includes_str (toLowerCase (img_name image)) (toLowerCase query)) imgs"

definition filteredImages :: "(string \<Rightarrow> string) \<Rightarrow> app_state \<Rightarrow> image_data list" where
  "filteredImages toLowerCase s = filter_images toLowerCase (images s) (searchTerm s)"

section \<open>Theme at startup\<close>

text \<open>The second half of the mount effect: \<open>savedTheme === 'dark'\<close>.\<close>

definition load_theme :: "storage \<Rightarrow> app_state \<Rightarrow> app_state" where
  "load_theme st s =
     (if theme st = Some ''dark'' then s\<lparr>isDarkMode := True, darkClass := True\<rparr> else s)"

section \<open>The handler between two reads\<close>

text \<open>
  \<open>handleFileUpload\<close> is an \<open>async\<close> function: at every \<open>await fileToBase64(file)\<close> it
  is suspended and other handlers may run before the read settles. The definitions below
  cut the handler at its \<open>await\<close>: what it does from its call up to its first read, and
  from the settling of a read up to the next one. A suspended handler keeps its local
  variables: the file being read, its index, the files still to visit and \<open>newImages\<close>.
\<close>

record pending_read =
  p_file :: File
  p_index :: nat
  p_rest :: "File list"
  p_newImages :: "image_data list"

text \<open>The loop up to the next file that is read; \<open>Inr\<close> when no file is left.\<close>

fun upload_next :: "nat \<Rightarrow> File list \<Rightarrow> image_data list \<Rightarrow> pending_read + image_data list" where
  "upload_next k [] newImages = Inr newImages"
| "upload_next k (f # fs) newImages =
     (if startsWith (file_type f) ''image/'' then
        Inl \<lparr>p_file = f, p_index = k, p_rest = fs, p_newImages = newImages\<rparr>
      else upload_next (Suc k) fs newImages)"

text \<open>\<open>setImages(prev => [...prev, ...newImages])\<close> followed by the \<open>finally\<close> block.\<close>

definition upload_commit :: "app_state \<Rightarrow> image_data list \<Rightarrow> app_state" where
  "upload_commit s newImages = upload_finally (s\<lparr>images := images s @ newImages\<rparr>)"

text \<open>The call of the handler, up to its first read or, without one, to its end.\<close>

definition upload_start :: "app_state \<Rightarrow> File list option \<Rightarrow> app_state \<times> pending_read option" where
  "upload_start s files =
     (case files of
        None \<Rightarrow> (s, None)
      | Some fileArray \<Rightarrow>
          if fileArray = [] then (s, None)
          else
            (let s1 = s\<lparr>uploading := True\<rparr> in
             case upload_next 0 fileArray [] of
               Inl p \<Rightarrow> (s1, Some p)
             | Inr newImages \<Rightarrow> (upload_commit s1 newImages, None)))"

text \<open>
  The settling of the awaited read, in the state the component has by then: a rejection
  goes through \<open>catch\<close> to \<open>finally\<close>, a result is pushed and the loop goes on.
\<close>

definition upload_resume ::
  "env \<Rightarrow> app_state \<Rightarrow> pending_read \<Rightarrow> read_error + string \<Rightarrow> app_state \<times> pending_read option" where
  "upload_resume E s p res =
     (case res of
        Inl err \<Rightarrow> (upload_finally s, None)
      | Inr base64 \<Rightarrow>
          (case upload_next (Suc (p_index p)) (p_rest p)
                  (p_newImages p @ [mk_image E (p_index p) (p_file p) base64]) of
             Inl p' \<Rightarrow> (s, Some p')
           | Inr newImages \<Rightarrow> (upload_commit s newImages, None)))"

text \<open>
  One batch followed from its call to its end. Each of its reads settles with the outcome
  the environment gives for the file; before it settles, whatever else ran in the meantime
  (a deletion, the end of another batch) has changed the state of the component by the
  next function of the list. With no function left the batch stays suspended.
\<close>

fun upload_run ::
  "env \<Rightarrow> (app_state \<Rightarrow> app_state) list \<Rightarrow> app_state \<times> pending_read option
     \<Rightarrow> app_state \<times> pending_read option" where
  "upload_run E gs (s, None) = (s, None)"
| "upload_run E [] (s, Some p) = (s, Some p)"
| "upload_run E (g # gs) (s, Some p) =
     upload_run E gs (upload_resume E (g s) p (readAsDataURL E (p_file p)))"

text \<open>
  The component together with the handlers that are suspended on a read. An event is a
  call of the handler (a selection in the file input or a drop on the upload area, which
  stays active during an upload) or the settling of the read of the \<open>i\<close>-th suspended
  handler.
\<close>

datatype event = Start "File list option" | ReadDone nat "read_error + string"

definition remove_nth :: "nat \<Rightarrow> 'a list \<Rightarrow> 'a list" where
  "remove_nth i xs = take i xs @ drop (Suc i) xs"

fun step :: "env \<Rightarrow> app_state \<times> pending_read list \<Rightarrow> event \<Rightarrow> app_state \<times> pending_read list" where
  "step E (s, ps) (Start files) =
     (case upload_start s files of
        (s', None) \<Rightarrow> (s', ps)
      | (s', Some p) \<Rightarrow> (s', ps @ [p]))"
| "step E (s, ps) (ReadDone i res) =
     (if i < length ps then
        (case upload_resume E s (ps ! i) res of
           (s', None) \<Rightarrow> (s', remove_nth i ps)
         | (s', Some p') \<Rightarrow> (s', ps[i := p']))
      else (s, ps))"

text \<open>
  "The uploading flag is true exactly while reads are outstanding": the flag is set if
  and only if some handler is suspended on a read.
\<close>

definition flag_tracks_reads :: "app_state \<times> pending_read list \<Rightarrow> bool" where
  "flag_tracks_reads sys = (uploading (fst sys) \<longleftrightarrow> snd sys \<noteq> [])"

section \<open>The stored collection: \<open>JSON.stringify\<close> and \<open>JSON.parse\<close>\<close>

text \<open>
  The collection is stored as the text \<open>JSON.stringify(images)\<close> and read back with
  \<open>JSON.parse\<close>. Both are functions of the language; they are written out here from the
  JSON grammar. A parsed value is a \<open>json\<close>; the members of an object are kept in the order
  of their first occurrence, a repeated key keeping its last value. Numbers are kept exact
  (their rounding to a double is not part of the model), texts are byte sequences (an
  escape \<open>\uXXXX\<close> yields the UTF-8 bytes of its code point, a surrogate pair those of
  the pair).
\<close>

datatype json =
    JNull
  | JBool bool
  | JNum rat
  | JStr string
  | JArr "json list"
  | JObj "(string \<times> json) list"

text \<open>The four whitespace characters of JSON: space, tab, line feed, carriage return.\<close>

definition is_ws :: "char \<Rightarrow> bool" where
  "is_ws c = (c = CHR 0x20 \<or> c = CHR 0x09 \<or> c = CHR 0x0A \<or> c = CHR 0x0D)"

definition skip_ws :: "string \<Rightarrow> string" where
  "skip_ws s = dropWhile is_ws s"

text \<open>Decimal digits and their values; the value of a run of digits.\<close>

definition is_digit :: "char \<Rightarrow> bool" where
  "is_digit c = (48 \<le> (of_char c :: nat) \<and> (of_char c :: nat) \<le> 57)"

definition digit_val :: "char \<Rightarrow> nat" where
  "digit_val c = of_char c - 48"

definition digits_val :: "string \<Rightarrow> nat" where
  "digits_val ds = foldl (\<lambda>a c. 10 * a + digit_val c) 0 ds"

text \<open>The four hexadecimal digits of an escape \<open>\uXXXX\<close>, in either case.\<close>

definition hex_val :: "char \<Rightarrow> nat option" where
  "hex_val c =
     (let n = (of_char c :: nat) in
      if 48 \<le> n \<and> n \<le> 57 then Some (n - 48)
      else if 97 \<le> n \<and> n \<le> 102 then Some (n - 87)
      else if 65 \<le> n \<and> n \<le> 70 then Some (n - 55)
      else None)"

definition hex4 :: "char \<Rightarrow> char \<Rightarrow> char \<Rightarrow> char \<Rightarrow> nat option" where
  "hex4 a b c d =
     (case (hex_val a, hex_val b, hex_val c, hex_val d) of
        (Some w, Some x, Some y, Some z) \<Rightarrow> Some (((w * 16 + x) * 16 + y) * 16 + z)
      | _ \<Rightarrow> None)"

text \<open>The bytes of a code point.\<close>

definition utf8_encode :: "nat \<Rightarrow> string" where
  "utf8_encode cp =
     (if cp < 0x80 then [char_of cp]
      else if cp < 0x800 then [char_of (0xC0 + cp div 64), char_of (0x80 + cp mod 64)]
      else if cp < 0x10000 then
        [char_of (0xE0 + cp div 4096), char_of (0x80 + (cp div 64) mod 64),
         char_of (0x80 + cp mod 64)]
      else
        [char_of (0xF0 + cp div 262144), char_of (0x80 + (cp div 4096) mod 64),
         char_of (0x80 + (cp div 64) mod 64), char_of (0x80 + cp mod 64)])"

text \<open>The escapes of one character after a backslash.\<close>

definition simple_escape :: "char \<Rightarrow> char option" where
  "simple_escape e =
     (if e = CHR 0x22 then Some (CHR 0x22)
      else if e = CHR 0x5C then Some (CHR 0x5C)
      else if e = CHR ''/'' then Some (CHR ''/'')
      else if e = CHR ''b'' then Some (CHR 0x08)
      else if e = CHR ''f'' then Some (CHR 0x0C)
      else if e = CHR ''n'' then Some (CHR 0x0A)
      else if e = CHR ''r'' then Some (CHR 0x0D)
      else if e = CHR ''t'' then Some (CHR 0x09)
      else None)"

text \<open>Decoded bytes put in front of what the rest of the text parses to.\<close>

definition prepend :: "string \<Rightarrow> (string \<times> string) option \<Rightarrow> (string \<times> string) option" where
  "prepend bs res = (case res of None \<Rightarrow> None | Some (t, rest) \<Rightarrow> Some (bs @ t, rest))"

text \<open>An escape \<open>\uXXXX\<close> in the range of the low surrogates, for a pair.\<close>

definition low_surrogate :: "char \<Rightarrow> char \<Rightarrow> char \<Rightarrow> char \<Rightarrow> char \<Rightarrow> char \<Rightarrow> nat option" where
  "low_surrogate b u l1 l2 l3 l4 =
     (if b = CHR 0x5C \<and> u = CHR ''u'' then
        (case hex4 l1 l2 l3 l4 of
           None \<Rightarrow> None
         | Some lo \<Rightarrow> if 0xDC00 \<le> lo \<and> lo \<le> 0xDFFF then Some lo else None)
      else None)"

text \<open>
  The characters of a text after its opening quote, up to the closing quote: the decoded
  text and what follows. A control character below \<open>0x20\<close>, an unknown escape and a
  missing closing quote are syntax errors (\<open>None\<close>).
\<close>

fun parse_chars :: "string \<Rightarrow> (string \<times> string) option" where
  "parse_chars [] = None"
| "parse_chars (c # cs) =
     (if c = CHR 0x22 then Some ([], cs)
      else if c = CHR 0x5C then
        (case cs of
           [] \<Rightarrow> None
         | e # es \<Rightarrow>
             if e = CHR ''u'' then
               (case es of
                  h1 # h2 # h3 # h4 # r \<Rightarrow>
                    (case hex4 h1 h2 h3 h4 of
                       None \<Rightarrow> None
                     | Some hi \<Rightarrow>
                         (case r of
                            b # u # l1 # l2 # l3 # l4 # r2 \<Rightarrow>
                              (case (if 0xD800 \<le> hi \<and> hi \<le> 0xDBFF
                                     then low_surrogate b u l1 l2 l3 l4 else None) of
                                 Some lo \<Rightarrow>
                                   prepend
                                     (utf8_encode (0x10000 + (hi - 0xD800) * 0x400 + (lo - 0xDC00)))
                                     (parse_chars r2)
                               | None \<Rightarrow> prepend (utf8_encode hi) (parse_chars r))
                          | _ \<Rightarrow> prepend (utf8_encode hi) (parse_chars r)))
                | _ \<Rightarrow> None)
             else
               (case simple_escape e of
                  None \<Rightarrow> None
                | Some d \<Rightarrow> prepend [d] (parse_chars es)))
      else if (of_char c :: nat) < 0x20 then None
      else prepend [c] (parse_chars cs))"


text \<open>
  A number: an optional minus, an integer part without leading zero, an optional fraction
  and an optional exponent; its value is exact.
\<close>

definition parse_frac :: "string \<Rightarrow> (string \<times> string) option" where
  "parse_frac s =
     (case s of
        [] \<Rightarrow> Some ([], s)
      | c # cs \<Rightarrow>
          if c = CHR ''.'' then
            (if takeWhile is_digit cs = [] then None
             else Some (takeWhile is_digit cs, dropWhile is_digit cs))
          else Some ([], s))"

definition parse_exp :: "string \<Rightarrow> (int \<times> string) option" where
  "parse_exp s =
     (case s of
        [] \<Rightarrow> Some (0, s)
      | c # cs \<Rightarrow>
          if c = CHR ''e'' \<or> c = CHR ''E'' then
            (let (neg, ds) =
               (case cs of
                  [] \<Rightarrow> (False, cs)
                | d # r \<Rightarrow>
                    if d = CHR ''-'' then (True, r)
                    else if d = CHR ''+'' then (False, r)
                    else (False, cs))
             in if takeWhile is_digit ds = [] then None
                else Some ((if neg then - int (digits_val (takeWhile is_digit ds))
                            else int (digits_val (takeWhile is_digit ds))),
                           dropWhile is_digit ds))
          else Some (0, s))"

definition scale10 :: "rat \<Rightarrow> int \<Rightarrow> rat" where
  "scale10 q e = (if 0 \<le> e then q * 10 ^ nat e else q / 10 ^ nat (- e))"

definition parse_number :: "string \<Rightarrow> (rat \<times> string) option" where
  "parse_number s =
     (let (neg, s1) =
        (case s of [] \<Rightarrow> (False, s) | c # cs \<Rightarrow> if c = CHR ''-'' then (True, cs) else (False, s));
          ds = takeWhile is_digit s1
      in if ds = [] \<or> (1 < length ds \<and> hd ds = CHR ''0'') then None
         else
           (case parse_frac (dropWhile is_digit s1) of
              None \<Rightarrow> None
            | Some (fs, s2) \<Rightarrow>
                (case parse_exp s2 of
                   None \<Rightarrow> None
                 | Some (e, s3) \<Rightarrow>
                     (let m = of_nat (digits_val ds) + of_nat (digits_val fs) / 10 ^ length fs
                      in Some (scale10 (if neg then - m else m) e, s3)))))"

text \<open>A member added to an object: a key that is there keeps its place and takes the new value.\<close>

fun obj_put :: "string \<Rightarrow> json \<Rightarrow> (string \<times> json) list \<Rightarrow> (string \<times> json) list" where
  "obj_put k v [] = [(k, v)]"
| "obj_put k v ((k', v') # kvs) = (if k' = k then (k, v) # kvs else (k', v') # obj_put k v kvs)"

text \<open>One of the words \<open>true\<close>, \<open>false\<close>, \<open>null\<close>.\<close>

definition literal :: "string \<Rightarrow> json \<Rightarrow> string \<Rightarrow> (json \<times> string) option" where
  "literal word v s = (if startsWith s word then Some (v, drop (length word) s) else None)"

text \<open>
  A value, the elements of an array after its first bracket, the members of an object after
  its first brace. The first argument bounds the number of nested calls.
\<close>

fun parse_value :: "nat \<Rightarrow> string \<Rightarrow> (json \<times> string) option"
  and parse_elems :: "nat \<Rightarrow> json list \<Rightarrow> string \<Rightarrow> (json \<times> string) option"
  and parse_members :: "nat \<Rightarrow> (string \<times> json) list \<Rightarrow> string \<Rightarrow> (json \<times> string) option"
where
  "parse_value 0 s = None"
| "parse_value (Suc n) s =
     (case skip_ws s of
        [] \<Rightarrow> None
      | c # cs \<Rightarrow>
          if c = CHR ''{'' then
            (case skip_ws cs of
               [] \<Rightarrow> None
             | d # ds \<Rightarrow> if d = CHR ''}'' then Some (JObj [], ds) else parse_members n [] (d # ds))
          else if c = CHR ''['' then
            (case skip_ws cs of
               [] \<Rightarrow> None
             | d # ds \<Rightarrow> if d = CHR '']'' then Some (JArr [], ds) else parse_elems n [] (d # ds))
          else if c = CHR 0x22 then
            (case parse_chars cs of None \<Rightarrow> None | Some (t, r) \<Rightarrow> Some (JStr t, r))
          else if c = CHR ''t'' then literal ''true'' (JBool True) (c # cs)
          else if c = CHR ''f'' then literal ''false'' (JBool False) (c # cs)
          else if c = CHR ''n'' then literal ''null'' JNull (c # cs)
          else if c = CHR ''-'' \<or> is_digit c then
            (case parse_number (c # cs) of None \<Rightarrow> None | Some (q, r) \<Rightarrow> Some (JNum q, r))
          else None)"
| "parse_elems 0 acc s = None"
| "parse_elems (Suc n) acc s =
     (case parse_value n s of
        None \<Rightarrow> None
      | Some (v, r) \<Rightarrow>
          (case skip_ws r of
             [] \<Rightarrow> None
           | c # cs \<Rightarrow>
               if c = CHR '','' then parse_elems n (acc @ [v]) cs
               else if c = CHR '']'' then Some (JArr (acc @ [v]), cs)
               else None))"
| "parse_members 0 acc s = None"
| "parse_members (Suc n) acc s =
     (case skip_ws s of
        [] \<Rightarrow> None
      | c # cs \<Rightarrow>
          if c \<noteq> CHR 0x22 then None
          else
            (case parse_chars cs of
               None \<Rightarrow> None
             | Some (k, r1) \<Rightarrow>
                 (case skip_ws r1 of
                    [] \<Rightarrow> None
                  | c1 # r2 \<Rightarrow>
                      if c1 \<noteq> CHR '':'' then None
                      else
                        (case parse_value n r2 of
                           None \<Rightarrow> None
                         | Some (v, r3) \<Rightarrow>
                             (case skip_ws r3 of
                                [] \<Rightarrow> None
                              | c3 # r4 \<Rightarrow>
                                  if c3 = CHR '','' then parse_members n (obj_put k v acc) r4
                                  else if c3 = CHR ''}'' then Some (JObj (obj_put k v acc), r4)
                                  else None)))))"

text \<open>
  \<open>JSON.parse(text)\<close>: one value, then nothing but whitespace; \<open>None\<close> when it throws.
  The bound it starts with is never reached: a larger one gives the same result
  (\<open>parse_fuel\<close> below).
\<close>

definition JSON_parse :: "string \<Rightarrow> json option" where
  "JSON_parse text =
     (case parse_value (2 * length text + 1) text of
        None \<Rightarrow> None
      | Some (v, r) \<Rightarrow> if skip_ws r = [] then Some v else None)"

text \<open>
  \<open>JSON.stringify\<close> of a text: quotes around it, the quote and the backslash escaped, the
  control characters below \<open>0x20\<close> written as their short escape or as \<open>\u00XX\<close>.
\<close>

definition hex_digit :: "nat \<Rightarrow> char" where
  "hex_digit n = (if n < 10 then char_of (48 + n) else char_of (87 + n))"

definition quote_char :: "char \<Rightarrow> string" where
  "quote_char c =
     (if c = CHR 0x22 then [CHR 0x5C, CHR 0x22]
      else if c = CHR 0x5C then [CHR 0x5C, CHR 0x5C]
      else if c = CHR 0x08 then [CHR 0x5C, CHR ''b'']
      else if c = CHR 0x0C then [CHR 0x5C, CHR ''f'']
      else if c = CHR 0x0A then [CHR 0x5C, CHR ''n'']
      else if c = CHR 0x0D then [CHR 0x5C, CHR ''r'']
      else if c = CHR 0x09 then [CHR 0x5C, CHR ''t'']
      else if (of_char c :: nat) < 0x20 then
        [CHR 0x5C, CHR ''u'', CHR ''0'', CHR ''0'',
         hex_digit (of_char c div 16), hex_digit (of_char c mod 16)]
      else [c])"

definition JSON_quote :: "string \<Rightarrow> string" where
  "JSON_quote s = CHR 0x22 # concat (map quote_char s) @ [CHR 0x22]"

text \<open>\<open>JSON.stringify\<close> of a file size: its decimal digits.\<close>

fun show_nat :: "nat \<Rightarrow> string" where
  "show_nat n = (if n < 10 then [char_of (48 + n)] else show_nat (n div 10) @ [char_of (48 + n mod 10)])"

text \<open>
  \<open>JSON.stringify(images)\<close>: every record as an object with its five members in the
  order of the object literal that built it, the records separated by commas, without
  whitespace.
\<close>

definition member :: "string \<Rightarrow> string \<Rightarrow> string" where
  "member k v = JSON_quote k @ CHR '':'' # v"

definition stringify_image :: "image_data \<Rightarrow> string" where
  "stringify_image r =
     CHR ''{'' # member ''id'' (JSON_quote (img_id r)) @
     CHR '','' # member ''name'' (JSON_quote (img_name r)) @
     CHR '','' # member ''src'' (JSON_quote (img_src r)) @
     CHR '','' # member ''size'' (show_nat (img_size r)) @
     CHR '','' # member ''uploadDate'' (JSON_quote (img_uploadDate r)) @ [CHR ''}'']"

fun join_comma :: "string list \<Rightarrow> string" where
  "join_comma [] = []"
| "join_comma [x] = x"
| "join_comma (x # y # ys) = x @ CHR '','' # join_comma (y # ys)"

definition JSON_stringify :: "image_data list \<Rightarrow> string" where
  "JSON_stringify imgs = CHR ''['' # join_comma (map stringify_image imgs) @ [CHR '']'']"

text \<open>
  A parsed value read as \<open>ImageData[]\<close>: an array of objects that have exactly the five
  members, four texts and a natural number.
\<close>

definition as_string :: "json option \<Rightarrow> string option" where
  "as_string v = (case v of Some (JStr t) \<Rightarrow> Some t | _ \<Rightarrow> None)"

definition as_nat :: "json option \<Rightarrow> nat option" where
  "as_nat v =
     (case v of
        Some (JNum q) \<Rightarrow>
          (case quotient_of q of (a, b) \<Rightarrow> if b = 1 \<and> 0 \<le> a then Some (nat a) else None)
      | _ \<Rightarrow> None)"

definition decode_image :: "json \<Rightarrow> image_data option" where
  "decode_image v =
     (case v of
        JObj kvs \<Rightarrow>
          (case (as_string (map_of kvs ''id''), as_string (map_of kvs ''name''),
                 as_string (map_of kvs ''src''), as_nat (map_of kvs ''size''),
                 as_string (map_of kvs ''uploadDate'')) of
             (Some i, Some n, Some s, Some z, Some d) \<Rightarrow>
               if length kvs = 5 then
                 Some \<lparr>img_id = i, img_name = n, img_src = s, img_size = z, img_uploadDate = d\<rparr>
               else None
           | _ \<Rightarrow> None)
      | _ \<Rightarrow> None)"

definition decode_images :: "json \<Rightarrow> image_data list option" where
  "decode_images v = (case v of JArr vs \<Rightarrow> those (map decode_image vs) | _ \<Rightarrow> None)"

text \<open>The value of a record as \<open>JSON.parse\<close> yields it.\<close>

definition to_json :: "image_data \<Rightarrow> json" where
  "to_json r =
     JObj [(''id'', JStr (img_id r)), (''name'', JStr (img_name r)), (''src'', JStr (img_src r)),
           (''size'', JNum (of_nat (img_size r))), (''uploadDate'', JStr (img_uploadDate r))]"

section \<open>The store: the save effect and the mount effect\<close>

text \<open>The effect on \<open>[images]\<close>: \<open>localStorage.setItem('gallery-images', JSON.stringify(images))\<close>.\<close>

definition save_images :: "app_state \<Rightarrow> storage \<Rightarrow> storage" where
  "save_images s st = st\<lparr>gallery_images := Some (JSON_stringify (images s))\<rparr>"

text \<open>
  The first half of the mount effect. \<open>if (savedImages)\<close> is false for a missing slot and
  for the empty text; a \<open>JSON.parse\<close> that throws is caught and logged, and \<open>images\<close>
  keeps its value. A parsed value goes to \<open>setImages\<close> as it is: the result is \<open>Inr\<close> of
  the new state when that value is an array of \<open>ImageData\<close> records, and \<open>Inl\<close> of the
  value when it is not (the state then holds a value outside the type of \<open>images\<close>).
\<close>

definition load_images :: "storage \<Rightarrow> app_state \<Rightarrow> json + app_state" where
  "load_images st s =
     (case gallery_images st of
        None \<Rightarrow> Inr s
      | Some savedImages \<Rightarrow>
          if savedImages = [] then Inr s
          else
            (case JSON_parse savedImages of
               None \<Rightarrow> Inr s
             | Some v \<Rightarrow>
                 (case decode_images v of
                    Some imgs \<Rightarrow> Inr (s\<lparr>images := imgs\<rparr>)
                  | None \<Rightarrow> Inl v)))"

section \<open>The view filter in the words of the specification\<close>

text \<open>
  "Case-insensitive substring match of \<open>query\<close> against each record's \<open>name\<close>": some
  segment of the name equals the query letter by letter, where a capital letter \<open>A\<close> to
  \<open>Z\<close> and its small letter count as the same letter.
\<close>

definition spec_same_letter :: "char \<Rightarrow> char \<Rightarrow> bool" where
  "spec_same_letter x y =
     (let a = (of_char x :: nat); b = (of_char y :: nat) in
      a = b \<or> (65 \<le> a \<and> a \<le> 90 \<and> b = a + 32) \<or> (65 \<le> b \<and> b \<le> 90 \<and> a = b + 32))"

definition spec_ci_equal :: "string \<Rightarrow> string \<Rightarrow> bool" where
  "spec_ci_equal a b = list_all2 spec_same_letter a b"

definition spec_ci_substring :: "string \<Rightarrow> string \<Rightarrow> bool" where
  "spec_ci_substring s q =
     list_ex (\<lambda>k. spec_ci_equal (take (length q) (drop k s)) q) [0..<Suc (length s)]"

section \<open>Example inputs\<close>

definition photo_png :: File where
  "photo_png = \<lparr>file_name = ''photo.png'', file_type = ''image/png'', file_size = 2048\<rparr>"

definition cat_gif :: File where
  "cat_gif = \<lparr>file_name = ''my.cat.gif'', file_type = ''image/gif'', file_size = 77\<rparr>"

definition notes_txt :: File where
  "notes_txt = \<lparr>file_name = ''notes.txt'', file_type = ''text/plain'', file_size = 12\<rparr>"

definition env_ok :: env where
  "env_ok = \<lparr>readAsDataURL = (\<lambda>f. Inr (''data:'' @ file_type f @ '';base64,AAAA'')),
             genId = (\<lambda>k. ''1700000000000abcdefghi''),
             isoNow = (\<lambda>k. ''2023-11-14T22:13:20.000Z'')\<rparr>"

definition env_broken :: env where
  "env_broken = env_ok\<lparr>readAsDataURL :=
     (\<lambda>f. if file_name f = ''my.cat.gif'' then Inl (ReadError ''NotReadableError'')
          else readAsDataURL env_ok f)\<rparr>"

definition img_a :: image_data where
  "img_a = \<lparr>img_id = ''a1'', img_name = ''Photo of Rome'', img_src = ''data:image/png;base64,AA'',
            img_size = 2048, img_uploadDate = ''2023-11-14T22:13:20.000Z''\<rparr>"

definition img_b :: image_data where
  "img_b = \<lparr>img_id = ''b2'', img_name = ''cat'', img_src = ''data:image/gif;base64,BB'',
            img_size = 77, img_uploadDate = ''2023-11-15T08:00:00.000Z''\<rparr>"

text \<open>
  Two Greek texts in UTF-8: capital alpha, capital sigma, capital alpha, and its first two
  letters. \<open>toLowerCase\<close> gives small alpha, small sigma, small alpha for the first and
  small alpha, final small sigma for the second, a capital sigma at the end of a word
  becoming the final form. \<open>toLowerCase_sample\<close> is \<open>toLowerCase\<close> on these two texts and
  on texts of ASCII characters; it is given no other text below.
\<close>

definition greek_asa :: string where
  "greek_asa = [CHR 0xCE, CHR 0x91, CHR 0xCE, CHR 0xA3, CHR 0xCE, CHR 0x91]"

definition greek_as :: string where
  "greek_as = [CHR 0xCE, CHR 0x91, CHR 0xCE, CHR 0xA3]"

definition toLowerCase_sample :: "string \<Rightarrow> string" where
  "toLowerCase_sample s =
     (if s = greek_asa then [CHR 0xCE, CHR 0xB1, CHR 0xCF, CHR 0x83, CHR 0xCE, CHR 0xB1]
      else if s = greek_as then [CHR 0xCE, CHR 0xB1, CHR 0xCF, CHR 0x82]
      else map ascii_lower s)"

definition img_greek :: image_data where
  "img_greek = \<lparr>img_id = ''g3'', img_name = greek_asa, img_src = ''data:image/png;base64,CC'',
                img_size = 5, img_uploadDate = ''2023-11-16T09:30:00.000Z''\<rparr>"

definition overlap_run :: "app_state \<times> pending_read list" where
  "overlap_run =
     step env_ok
       (step env_ok
          (step env_ok (initial_state (Some []), []) (Start (Some [photo_png])))
          (Start (Some [cat_gif])))
       (ReadDone 0 (Inr ''data:image/png;base64,AAAA''))"

section \<open>Properties of the string operations\<close>

lemma strip_ext_base:
  "ext_chars ext \<Longrightarrow> strip_ext (base @ CHR ''.'' # ext) = base"
proof (induction base)
  case Nil
  then show ?case by simp
next
  case (Cons c cs)
  have "\<not> ext_chars (cs @ CHR ''.'' # ext)"
    by (simp add: ext_chars_def)
  with Cons show ?case by simp
qed

lemma strip_ext_none:
  "(\<And>base ext. s = base @ CHR ''.'' # ext \<Longrightarrow> \<not> ext_chars ext) \<Longrightarrow> strip_ext s = s"
proof (induction s)
  case Nil
  then show ?case by simp
next
  case (Cons c cs)
  have 1: "\<not> (c = CHR ''.'' \<and> ext_chars cs)"
    using Cons.prems [of "[]" cs] by auto
  have 2: "strip_ext cs = cs"
  proof (rule Cons.IH)
    fix base ext assume "cs = base @ CHR ''.'' # ext"
    then have "c # cs = (c # base) @ CHR ''.'' # ext" by simp
    then show "\<not> ext_chars ext" by (rule Cons.prems)
  qed
  from 1 2 show ?case by auto
qed

lemma includes_str_iff:
  "includes_str s q \<longleftrightarrow> (\<exists>k\<le>length s. take (length q) (drop k s) = q)"
proof (induction s)
  case Nil
  then show ?case by auto
next
  case (Cons c cs)
  have "(\<exists>k\<le>length (c # cs). take (length q) (drop k (c # cs)) = q)
        \<longleftrightarrow> take (length q) (c # cs) = q \<or> (\<exists>k\<le>length cs. take (length q) (drop k cs) = q)"
    (is "?L \<longleftrightarrow> ?R")
  proof
    assume ?L
    then obtain k where k: "k \<le> length (c # cs)" "take (length q) (drop k (c # cs)) = q"
      by blast
    show ?R
    proof (cases k)
      case 0
      with k show ?thesis by simp
    next
      case (Suc j)
      with k show ?thesis by auto
    qed
  next
    assume ?R
    then show ?L
    proof
      assume "take (length q) (c # cs) = q"
      then have "take (length q) (drop 0 (c # cs)) = q" by simp
      then show ?L by blast
    next
      assume "\<exists>k\<le>length cs. take (length q) (drop k cs) = q"
      then obtain k where "k \<le> length cs" "take (length q) (drop k cs) = q" by blast
      then have "Suc k \<le> length (c # cs)" "take (length q) (drop (Suc k) (c # cs)) = q"
        by simp_all
      then show ?L by blast
    qed
  qed
  with Cons show ?case by (simp add: startsWith_def)
qed

lemma map_eq_iff_all2: "map f xs = map f ys \<longleftrightarrow> list_all2 (\<lambda>x y. f x = f y) xs ys"
  by (simp add: list_all2_map1 list_all2_map2 flip: list.rel_eq)

lemma spec_ci_substring_iff:
  "spec_ci_substring s q \<longleftrightarrow> (\<exists>k\<le>length s. spec_ci_equal (take (length q) (drop k s)) q)"
  unfolding spec_ci_substring_def list_ex_iff
  by (auto simp del: upt_Suc simp add: less_Suc_eq_le)

lemma of_char_ascii_lower:
  "(of_char (ascii_lower c) :: nat) =
     (if 65 \<le> (of_char c :: nat) \<and> (of_char c :: nat) \<le> 90 then of_char c + 32 else of_char c)"
  by (simp add: ascii_lower_def Let_def)

text \<open>Two characters have the same \<open>ascii_lower\<close> exactly when they are the same letter.\<close>

lemma ascii_lower_eq_iff: "ascii_lower x = ascii_lower y \<longleftrightarrow> spec_same_letter x y"
proof -
  have "ascii_lower x = ascii_lower y
        \<longleftrightarrow> (of_char (ascii_lower x) :: nat) = of_char (ascii_lower y)"
    by simp
  also have "\<dots> \<longleftrightarrow> spec_same_letter x y"
    unfolding of_char_ascii_lower spec_same_letter_def Let_def by auto
  finally show ?thesis .
qed

lemma includes_lower_iff:
  "includes_str (map ascii_lower s) (map ascii_lower q) \<longleftrightarrow> spec_ci_substring s q"
proof -
  have "take (length q) (drop k (map ascii_lower s)) = map ascii_lower q
        \<longleftrightarrow> spec_ci_equal (take (length q) (drop k s)) q" for k
    by (simp add: spec_ci_equal_def map_eq_iff_all2 take_map drop_map ascii_lower_eq_iff)
  then show ?thesis
    by (simp add: includes_str_iff spec_ci_substring_iff)
qed

lemma includes_str_infix:
  "includes_str s q \<longleftrightarrow> (\<exists>pre suf. s = pre @ q @ suf)"
proof
  assume "includes_str s q"
  then obtain k where k: "k \<le> length s" "take (length q) (drop k s) = q"
    by (auto simp: includes_str_iff)
  have "s = take k s @ take (length q) (drop k s) @ drop (length q) (drop k s)"
    by (simp only: append_take_drop_id)
  with k show "\<exists>pre suf. s = pre @ q @ suf" by metis
next
  assume "\<exists>pre suf. s = pre @ q @ suf"
  then obtain pre suf where "s = pre @ q @ suf" by blast
  then have "length pre \<le> length s" "take (length q) (drop (length pre) s) = q" by simp_all
  then show "includes_str s q" unfolding includes_str_iff by blast
qed

text \<open>The executable form of the specification's match is the usual one: a segment.\<close>

lemma spec_ci_substring_infix:
  "spec_ci_substring s q \<longleftrightarrow> (\<exists>pre seg suf. s = pre @ seg @ suf \<and> spec_ci_equal seg q)"
proof
  assume "spec_ci_substring s q"
  then obtain k where k: "k \<le> length s" "spec_ci_equal (take (length q) (drop k s)) q"
    by (auto simp: spec_ci_substring_iff)
  have "s = take k s @ take (length q) (drop k s) @ drop (length q) (drop k s)"
    by (simp only: append_take_drop_id)
  with k show "\<exists>pre seg suf. s = pre @ seg @ suf \<and> spec_ci_equal seg q" by blast
next
  assume "\<exists>pre seg suf. s = pre @ seg @ suf \<and> spec_ci_equal seg q"
  then obtain pre seg suf where *: "s = pre @ seg @ suf" "spec_ci_equal seg q" by blast
  then have "length seg = length q" by (simp add: spec_ci_equal_def list_all2_lengthD)
  with * have "length pre \<le> length s" "spec_ci_equal (take (length q) (drop (length pre) s)) q"
    by simp_all
  then show "spec_ci_substring s q" unfolding spec_ci_substring_iff by blast
qed

section \<open>Properties of the upload loop\<close>

lemma upload_loop_ok:
  "\<forall>f\<in>set files. startsWith (file_type f) ''image/'' \<longrightarrow> (\<exists>d. readAsDataURL E f = Inr d) \<Longrightarrow>
   \<exists>new. upload_loop E k files acc = Inr (acc @ new)
     \<and> map img_name new =
         map (\<lambda>f. strip_ext (file_name f)) (filter (\<lambda>f. startsWith (file_type f) ''image/'') files)
     \<and> map img_size new = map file_size (filter (\<lambda>f. startsWith (file_type f) ''image/'') files)
     \<and> map (\<lambda>r. Inr (img_src r)) new =
         map (readAsDataURL E) (filter (\<lambda>f. startsWith (file_type f) ''image/'') files)"
proof (induction files arbitrary: k acc)
  case Nil
  then show ?case by simp
next
  case (Cons f fs)
  show ?case
  proof (cases "startsWith (file_type f) ''image/''")
    case False
    with Cons show ?thesis by simp
  next
    case True
    with Cons.prems obtain d where d: "readAsDataURL E f = Inr d" by auto
    from Cons.prems
    have "\<forall>f\<in>set fs. startsWith (file_type f) ''image/'' \<longrightarrow> (\<exists>d. readAsDataURL E f = Inr d)"
      by simp
    from Cons.IH [OF this, of "Suc k" "acc @ [mk_image E k f d]"]
    obtain new where new:
      "upload_loop E (Suc k) fs (acc @ [mk_image E k f d]) = Inr ((acc @ [mk_image E k f d]) @ new)"
      "map img_name new =
         map (\<lambda>f. strip_ext (file_name f)) (filter (\<lambda>f. startsWith (file_type f) ''image/'') fs)"
      "map img_size new = map file_size (filter (\<lambda>f. startsWith (file_type f) ''image/'') fs)"
      "map (\<lambda>r. Inr (img_src r)) new =
         map (readAsDataURL E) (filter (\<lambda>f. startsWith (file_type f) ''image/'') fs)"
      by blast
    show ?thesis
      apply (rule exI [of _ "mk_image E k f d # new"])
      using True d new by (simp add: mk_image_def)
  qed
qed

lemma upload_loop_fails:
  "f \<in> set files \<Longrightarrow> startsWith (file_type f) ''image/'' \<Longrightarrow> readAsDataURL E f = Inl err \<Longrightarrow>
   \<exists>e. upload_loop E k files acc = Inl e"
proof (induction files arbitrary: k acc)
  case Nil
  then show ?case by simp
next
  case (Cons g gs)
  show ?case
  proof (cases "g = f")
    case True
    with Cons.prems show ?thesis by simp
  next
    case False
    with Cons.prems have "f \<in> set gs" by simp
    from Cons.IH [OF this Cons.prems(2,3)] show ?thesis
      by (simp split: sum.split)
  qed
qed

section \<open>Properties of the handler between two reads\<close>

text \<open>
  The loop of \<open>handleFileUpload\<close> is the loop cut at its reads: up to the next read,
  then, with the outcome of that read, on from there.
\<close>

lemma upload_loop_unfold:
  "upload_loop E k fs acc =
     (case upload_next k fs acc of
        Inr newImages \<Rightarrow> Inr newImages
      | Inl p \<Rightarrow>
          (case readAsDataURL E (p_file p) of
             Inl err \<Rightarrow> Inl err
           | Inr base64 \<Rightarrow>
               upload_loop E (Suc (p_index p)) (p_rest p)
                 (p_newImages p @ [mk_image E (p_index p) (p_file p) base64])))"
  by (induction fs arbitrary: k acc) (auto split: sum.splits)

text \<open>
  The suspended handler, run with the reads of the environment, ends where
  \<open>handleFileUpload\<close> ends when nothing else runs in between; and when other handlers
  change the state in between, a batch whose reads succeed ends by appending its records
  to the collection as it is at that moment.
\<close>

lemma upload_run_loop:
  "length (filter (\<lambda>f. startsWith (file_type f) ''image/'') fs) \<le> n \<Longrightarrow>
   upload_run E (replicate n (\<lambda>t. t))
     (case upload_next k fs acc of
        Inl p \<Rightarrow> (s, Some p)
      | Inr newImages \<Rightarrow> (upload_commit s newImages, None))
   = (case upload_loop E k fs acc of
        Inr newImages \<Rightarrow> upload_commit s newImages
      | Inl err \<Rightarrow> upload_finally s, None)"
proof (induction fs arbitrary: n k acc)
  case Nil
  then show ?case by simp
next
  case (Cons f fs)
  show ?case
  proof (cases "startsWith (file_type f) ''image/''")
    case False
    with Cons show ?thesis by simp
  next
    case True
    with Cons.prems obtain m where n: "n = Suc m"
      and m: "length (filter (\<lambda>f. startsWith (file_type f) ''image/'') fs) \<le> m"
      by (cases n) auto
    show ?thesis
    proof (cases "readAsDataURL E f")
      case (Inl err)
      with True n show ?thesis by (simp add: upload_resume_def)
    next
      case (Inr d)
      with True n Cons.IH [OF m, of "Suc k" "acc @ [mk_image E k f d]"] show ?thesis
        by (simp add: upload_resume_def)
    qed
  qed
qed

lemma upload_run_interleaved:
  "upload_loop E k fs acc = Inr new \<Longrightarrow>
   length gs = length (filter (\<lambda>f. startsWith (file_type f) ''image/'') fs) \<Longrightarrow>
   upload_run E gs
     (case upload_next k fs acc of
        Inl p \<Rightarrow> (s, Some p)
      | Inr newImages \<Rightarrow> (upload_commit s newImages, None))
   = (upload_commit (fold (\<lambda>g t. g t) gs s) new, None)"
proof (induction fs arbitrary: gs k acc s)
  case Nil
  then show ?case by simp
next
  case (Cons f fs)
  show ?case
  proof (cases "startsWith (file_type f) ''image/''")
    case False
    with Cons show ?thesis by simp
  next
    case True
    with Cons.prems(2) obtain g gs' where gs: "gs = g # gs'"
      and l: "length gs' = length (filter (\<lambda>f. startsWith (file_type f) ''image/'') fs)"
      by (cases gs) auto
    from True Cons.prems(1) obtain d where d: "readAsDataURL E f = Inr d"
      and loop: "upload_loop E (Suc k) fs (acc @ [mk_image E k f d]) = Inr new"
      by (auto split: sum.splits)
    from Cons.IH [OF loop l, of "g s"] True d gs show ?thesis
      by (simp add: upload_resume_def)
  qed
qed

lemma upload_finally_fields:
  "\<not> uploading (upload_finally s)"
  "fileInputValue (upload_finally s) = map_option (\<lambda>v. []) (fileInputValue s)"
  "images (upload_finally s) = images s"
  by (simp_all add: upload_finally_def split: option.split)

lemma upload_resume_resolved:
  "upload_resume E s p res = (s', None) \<Longrightarrow>
     \<not> uploading s' \<and> fileInputValue s' = map_option (\<lambda>v. []) (fileInputValue s)"
  by (auto simp: upload_resume_def upload_commit_def upload_finally_fields split: sum.splits)

lemma upload_resume_pending:
  "upload_resume E s p res = (s', Some p') \<Longrightarrow> s' = s"
  by (auto simp: upload_resume_def split: sum.splits)

lemma upload_start_resolved:
  "fa \<noteq> [] \<Longrightarrow> upload_start s (Some fa) = (s', None) \<Longrightarrow>
     \<not> uploading s' \<and> fileInputValue s' = map_option (\<lambda>v. []) (fileInputValue s)"
  by (auto simp: upload_start_def upload_commit_def upload_finally_fields Let_def split: sum.splits)

lemma upload_start_pending:
  "upload_start s files = (s', Some p) \<Longrightarrow> s' = s\<lparr>uploading := True\<rparr>"
  by (auto simp: upload_start_def Let_def split: sum.splits option.splits if_splits)

lemma upload_start_None_cases:
  "upload_start s files = (s', None) \<Longrightarrow> s' = s \<or> \<not> uploading s'"
  by (auto simp: upload_start_def Let_def upload_commit_def upload_finally_fields
      split: sum.splits option.splits if_splits)

lemma handleFileUpload_resolved:
  "fa \<noteq> [] \<Longrightarrow> \<not> uploading (handleFileUpload E s (Some fa))
     \<and> fileInputValue (handleFileUpload E s (Some fa)) = map_option (\<lambda>v. []) (fileInputValue s)"
  by (auto simp: handleFileUpload_def upload_finally_fields Let_def split: sum.splits)

lemma step_keeps_flag:
  assumes "length (snd sys) \<le> 1" "flag_tracks_reads sys" "\<forall>files. ev = Start files \<longrightarrow> snd sys = []"
  shows "length (snd (step E sys ev)) \<le> 1 \<and> flag_tracks_reads (step E sys ev)"
proof -
  obtain s ps where sys: "sys = (s, ps)" by (cases sys)
  show ?thesis
  proof (cases ev)
    case (Start files)
    with assms sys have ps: "ps = []" and u: "\<not> uploading s" by (auto simp: flag_tracks_reads_def)
    obtain s' po where r: "upload_start s files = (s', po)" by (cases "upload_start s files")
    show ?thesis
    proof (cases po)
      case None
      with r upload_start_None_cases [of s files s'] u ps Start sys show ?thesis
        by (auto simp: flag_tracks_reads_def)
    next
      case (Some p)
      with r upload_start_pending [of s files s' p] ps Start sys show ?thesis
        by (auto simp: flag_tracks_reads_def)
    qed
  next
    case (ReadDone i res)
    show ?thesis
    proof (cases "i < length ps")
      case False
      with assms sys ReadDone show ?thesis by simp
    next
      case True
      with assms sys obtain p0 where ps: "ps = [p0]" and i: "i = 0" and u: "uploading s"
        by (cases ps) (auto simp: flag_tracks_reads_def)
      obtain s' po where r: "upload_resume E s p0 res = (s', po)"
        by (cases "upload_resume E s p0 res")
      show ?thesis
      proof (cases po)
        case None
        with r upload_resume_resolved [of E s p0 res s'] ps i ReadDone sys show ?thesis
          by (simp add: flag_tracks_reads_def remove_nth_def)
      next
        case (Some p')
        with r upload_resume_pending [of E s p0 res s' p'] u ps i ReadDone sys show ?thesis
          by (simp add: flag_tracks_reads_def)
      qed
    qed
  qed
qed

section \<open>Properties of the JSON functions\<close>

text \<open>
  What \<open>JSON.stringify\<close> writes for a collection, \<open>JSON.parse\<close> reads back: first for a
  quoted text, then for a size, then for a record, then for the array of records. The
  fuel that \<open>JSON_parse\<close> starts with, the length of the text, is enough for it.
\<close>

declare show_nat.simps [simp del]

lemma skip_ws_cons: "\<not> is_ws c \<Longrightarrow> skip_ws (c # cs) = c # cs"
  by (simp add: skip_ws_def)

lemma hex_val_digit: "n < 16 \<Longrightarrow> hex_val (hex_digit n) = Some n"
  by (simp add: hex_val_def hex_digit_def Let_def)

lemma hex4_low:
  assumes "(of_char c :: nat) < 0x20"
  shows "hex4 (CHR ''0'') (CHR ''0'') (hex_digit (of_char c div 16)) (hex_digit (of_char c mod 16))
         = Some (of_char c)"
proof -
  have a: "hex_val (hex_digit (of_char c div 16)) = Some (of_char c div 16)"
    using assms by (intro hex_val_digit) simp
  have b: "hex_val (hex_digit (of_char c mod 16)) = Some (of_char c mod 16)"
    by (intro hex_val_digit) simp
  have z: "hex_val (CHR ''0'') = Some 0" by (simp add: hex_val_def)
  show ?thesis by (simp add: hex4_def a b z)
qed

lemma prepend_Some: "prepend bs (Some (t, r)) = Some (bs @ t, r)"
  by (simp add: prepend_def)

lemma parse_chars_plain:
  "c \<noteq> CHR 0x22 \<Longrightarrow> c \<noteq> CHR 0x5C \<Longrightarrow> \<not> (of_char c :: nat) < 0x20 \<Longrightarrow>
   parse_chars (c # rest) = prepend [c] (parse_chars rest)"
  by simp

lemma parse_chars_simple:
  "simple_escape e = Some d \<Longrightarrow> e \<noteq> CHR ''u'' \<Longrightarrow>
   parse_chars (CHR 0x5C # e # rest) = prepend [d] (parse_chars rest)"
  by simp


lemma parse_chars_u_low:
  assumes "hex4 h1 h2 h3 h4 = Some n" "n < 0xD800"
  shows "parse_chars (CHR 0x5C # CHR ''u'' # h1 # h2 # h3 # h4 # rest)
         = prepend (utf8_encode n) (parse_chars rest)"
proof -
  show ?thesis
    apply (subst parse_chars.simps)
    using assms
    apply (simp del: parse_chars.simps split: list.split)
    done
qed

lemma parse_chars_quote_char:
  "parse_chars (quote_char c @ rest) = prepend [c] (parse_chars rest)"
proof -
  consider (short) "c = CHR 0x22 \<or> c = CHR 0x5C \<or> c = CHR 0x08 \<or> c = CHR 0x0C \<or> c = CHR 0x0A
       \<or> c = CHR 0x0D \<or> c = CHR 0x09"
    | (ctl) "\<not> (c = CHR 0x22 \<or> c = CHR 0x5C \<or> c = CHR 0x08 \<or> c = CHR 0x0C \<or> c = CHR 0x0A
       \<or> c = CHR 0x0D \<or> c = CHR 0x09)" "(of_char c :: nat) < 0x20"
    | (plain) "\<not> (c = CHR 0x22 \<or> c = CHR 0x5C \<or> c = CHR 0x08 \<or> c = CHR 0x0C \<or> c = CHR 0x0A
       \<or> c = CHR 0x0D \<or> c = CHR 0x09)" "\<not> (of_char c :: nat) < 0x20"
    by blast
  then show ?thesis
  proof cases
    case short
    then show ?thesis
      by (auto simp add: quote_char_def parse_chars_simple simple_escape_def simp del: parse_chars.simps)
  next
    case ctl
    have u: "utf8_encode (of_char c) = [c]"
      using ctl(2) by (simp add: utf8_encode_def)
    have q: "quote_char c = [CHR 0x5C, CHR ''u'', CHR ''0'', CHR ''0'',
         hex_digit (of_char c div 16), hex_digit (of_char c mod 16)]"
      using ctl by (simp add: quote_char_def)
    show ?thesis
      using parse_chars_u_low [OF hex4_low [OF ctl(2)], of rest] ctl(2) u
      by (simp add: q del: parse_chars.simps)
  next
    case plain
    then show ?thesis
      by (simp add: quote_char_def parse_chars_plain del: parse_chars.simps)
  qed
qed

lemma parse_chars_quoted:
  "parse_chars (concat (map quote_char s) @ CHR 0x22 # rest) = Some (s, rest)"
  by (induction s) (simp_all add: parse_chars_quote_char prepend_Some del: parse_chars.simps, simp)


text \<open>
  The bound on the nested calls does not decide any result: every parser leaves a rest
  that is no longer than its input, and from twice the length of the text on, one more
  nested call changes nothing.
\<close>

lemma length_skip_ws: "length (skip_ws s) \<le> length s"
  by (simp add: skip_ws_def length_dropWhile_le)

lemma skip_ws_Cons_length: "skip_ws s = c # cs \<Longrightarrow> length cs < length s"
  using length_skip_ws [of s] by simp

lemma prepend_rest:
  "prepend bs res = Some (t, r) \<Longrightarrow> \<exists>t'. res = Some (t', r)"
  by (auto simp: prepend_def split: option.splits)

lemma parse_chars_step:
  assumes "parse_chars (c # cs) = Some (t, r)" "c \<noteq> CHR 0x22"
  shows "\<exists>t' u. parse_chars u = Some (t', r) \<and> length u \<le> length cs"
  using assms
  apply (subst (asm) parse_chars.simps)
  apply (simp del: parse_chars.simps split: if_splits list.splits option.splits)
  apply (safe dest!: prepend_rest)
  apply ((rule exI)+, rule conjI, assumption, simp)+
  done

lemma parse_chars_rest: "parse_chars s = Some (t, r) \<Longrightarrow> length r < length s"
proof (induction s arbitrary: t r rule: length_induct)
  case (1 s)
  note IH = "1.IH" [rule_format]
  from "1.prems" obtain c cs where s: "s = c # cs" by (cases s) auto
  show ?case
  proof (cases "c = CHR 0x22")
    case True
    with "1.prems" s show ?thesis by simp
  next
    case False
    from parse_chars_step [OF "1.prems" [unfolded s] False]
    obtain t' u where u: "parse_chars u = Some (t', r)" "length u \<le> length cs" by blast
    then have "length u < length s" using s by simp
    from IH [OF this u(1)] u(2) s show ?thesis by simp
  qed
qed


lemma parse_frac_rest: "parse_frac s = Some (fs, r) \<Longrightarrow> length r \<le> length s"
  using length_dropWhile_le [of is_digit "tl s"]
  by (auto simp: parse_frac_def split: list.splits if_splits)

lemma parse_exp_rest: "parse_exp s = Some (e, r) \<Longrightarrow> length r \<le> length s"
proof -
  assume a: "parse_exp s = Some (e, r)"
  have d: "length (dropWhile is_digit x) \<le> length x" for x :: string
    by (rule length_dropWhile_le)
  show ?thesis
  proof (cases s)
    case Nil
    with a show ?thesis by (simp add: parse_exp_def)
  next
    case (Cons c cs)
    show ?thesis
    proof (cases "c = CHR ''e'' \<or> c = CHR ''E''")
      case False
      with a Cons show ?thesis by (auto simp: parse_exp_def)
    next
      case True
      show ?thesis
      proof (cases cs)
        case Nil
        with a Cons True show ?thesis by (auto simp: parse_exp_def)
      next
        case (Cons x xs)
        with a \<open>s = c # cs\<close> True d [of xs] d [of cs] show ?thesis
          by (auto simp: parse_exp_def Let_def split: if_splits)
      qed
    qed
  qed
qed

lemma parse_number_rest: "parse_number s = Some (q, r) \<Longrightarrow> length r \<le> length s"
proof -
  assume a: "parse_number s = Some (q, r)"
  define s1 where "s1 = (case s of [] \<Rightarrow> s | c # cs \<Rightarrow> if c = CHR ''-'' then cs else s)"
  have s1: "length s1 \<le> length s" by (auto simp: s1_def split: list.splits)
  have p: "(case s of [] \<Rightarrow> (False, s) | c # cs \<Rightarrow> if c = CHR ''-'' then (True, cs) else (False, s))
        = ((case s of [] \<Rightarrow> False | c # cs \<Rightarrow> c = CHR ''-''), s1)"
    by (auto simp: s1_def split: list.splits)
  from a obtain fs s2 e where
    f: "parse_frac (dropWhile is_digit s1) = Some (fs, s2)" and e: "parse_exp s2 = Some (e, r)"
    unfolding parse_number_def p
    by (auto simp: Let_def split: if_splits option.splits)
  from parse_frac_rest [OF f] parse_exp_rest [OF e] length_dropWhile_le [of is_digit s1] s1
  show ?thesis by simp
qed

lemma literal_rest: "literal w v s = Some (x, r) \<Longrightarrow> length r \<le> length s"
  by (auto simp: literal_def split: if_splits)


lemma parse_value_nil: "skip_ws s = [] \<Longrightarrow> parse_value (Suc n) s = None"
  by simp

lemma parse_value_obj:
  "skip_ws s = CHR ''{'' # cs \<Longrightarrow>
   parse_value (Suc n) s =
     (case skip_ws cs of
        [] \<Rightarrow> None
      | d # ds \<Rightarrow> if d = CHR ''}'' then Some (JObj [], ds) else parse_members n [] (d # ds))"
  by (simp del: parse_members.simps)

lemma parse_value_arr:
  "skip_ws s = CHR ''['' # cs \<Longrightarrow>
   parse_value (Suc n) s =
     (case skip_ws cs of
        [] \<Rightarrow> None
      | d # ds \<Rightarrow> if d = CHR '']'' then Some (JArr [], ds) else parse_elems n [] (d # ds))"
  by (simp del: parse_elems.simps)

lemma parse_value_str:
  "skip_ws s = CHR 0x22 # cs \<Longrightarrow>
   parse_value (Suc n) s = (case parse_chars cs of None \<Rightarrow> None | Some (t, r) \<Rightarrow> Some (JStr t, r))"
  by (simp del: parse_chars.simps)

lemma parse_value_other:
  "skip_ws s = c # cs \<Longrightarrow> c \<noteq> CHR ''{'' \<Longrightarrow> c \<noteq> CHR ''['' \<Longrightarrow> c \<noteq> CHR 0x22 \<Longrightarrow>
   parse_value (Suc n) s =
     (if c = CHR ''t'' then literal ''true'' (JBool True) (c # cs)
      else if c = CHR ''f'' then literal ''false'' (JBool False) (c # cs)
      else if c = CHR ''n'' then literal ''null'' JNull (c # cs)
      else if c = CHR ''-'' \<or> is_digit c then
        (case parse_number (c # cs) of None \<Rightarrow> None | Some (q, r) \<Rightarrow> Some (JNum q, r))
      else None)"
  by (simp del: parse_chars.simps)


lemma parse_rest:
  "(\<forall>s v r. parse_value n s = Some (v, r) \<longrightarrow> length r \<le> length s)
   \<and> (\<forall>acc s v r. parse_elems n acc s = Some (v, r) \<longrightarrow> length r \<le> length s)
   \<and> (\<forall>acc s v r. parse_members n acc s = Some (v, r) \<longrightarrow> length r \<le> length s)"
proof (induction n)
  case 0
  then show ?case by simp
next
  case (Suc n)
  note [simp del] = parse_value.simps parse_elems.simps parse_members.simps parse_chars.simps
  from Suc have
    V: "\<And>s v r. parse_value n s = Some (v, r) \<Longrightarrow> length r \<le> length s" and
    E: "\<And>acc s v r. parse_elems n acc s = Some (v, r) \<Longrightarrow> length r \<le> length s" and
    M: "\<And>acc s v r. parse_members n acc s = Some (v, r) \<Longrightarrow> length r \<le> length s"
    by blast+
  have 1: "length r \<le> length s" if a: "parse_value (Suc n) s = Some (v, r)" for s v r
  proof (cases "skip_ws s")
    case Nil
    with a show ?thesis by (simp add: parse_value_nil)
  next
    case (Cons c cs)
    note lc = skip_ws_Cons_length [OF Cons]
    consider (obj) "c = CHR ''{''" | (arr) "c = CHR ''[''" | (str) "c = CHR 0x22"
      | (other) "c \<noteq> CHR ''{''" "c \<noteq> CHR ''[''" "c \<noteq> CHR 0x22" by blast
    then show ?thesis
    proof cases
      case obj
      from a Cons obj obtain d ds where d: "skip_ws cs = d # ds"
        and r: "r = ds \<or> parse_members n [] (d # ds) = Some (v, r)"
        by (auto simp: parse_value_obj split: list.splits if_splits)
      from r show ?thesis
        using lc skip_ws_Cons_length [OF d] M [of "[]" "d # ds" v r] length_skip_ws [of cs] d
        by auto
    next
      case arr
      from a Cons arr obtain d ds where d: "skip_ws cs = d # ds"
        and r: "r = ds \<or> parse_elems n [] (d # ds) = Some (v, r)"
        by (auto simp: parse_value_arr split: list.splits if_splits)
      from r show ?thesis
        using lc skip_ws_Cons_length [OF d] E [of "[]" "d # ds" v r] length_skip_ws [of cs] d
        by auto
    next
      case str
      from a Cons str obtain t where "parse_chars cs = Some (t, r)"
        by (auto simp: parse_value_str split: option.splits)
      from parse_chars_rest [OF this] lc show ?thesis by simp
    next
      case other
      from a have "(\<exists>w x. literal w x (c # cs) = Some (v, r)) \<or> (\<exists>q. parse_number (c # cs) = Some (q, r))"
        unfolding parse_value_other [OF Cons other]
        by (auto split: if_splits option.splits)
      then show ?thesis
        using literal_rest parse_number_rest lc
        by (metis Suc_leI le_trans length_Cons less_or_eq_imp_le)
    qed
  qed
  have 2: "length r \<le> length s" if a: "parse_elems (Suc n) acc s = Some (v, r)" for acc s v r
  proof -
    from a obtain x r1 where x: "parse_value n s = Some (x, r1)"
      by (subst (asm) parse_elems.simps) (auto split: option.splits)
    from a x obtain c cs where c: "skip_ws r1 = c # cs"
      by (subst (asm) parse_elems.simps) (auto split: list.splits)
    from a x c have "r = cs \<or> parse_elems n (acc @ [x]) cs = Some (v, r)"
      by (subst (asm) parse_elems.simps) (auto split: if_splits)
    with V [OF x] skip_ws_Cons_length [OF c] E [of "acc @ [x]" cs v r]
    show ?thesis by auto
  qed
  have 3: "length r \<le> length s" if a: "parse_members (Suc n) acc s = Some (v, r)" for acc s v r
  proof -
    from a obtain c cs where c: "skip_ws s = c # cs"
      by (subst (asm) parse_members.simps) (auto split: list.splits)
    from a c obtain k r1 where k: "parse_chars cs = Some (k, r1)"
      by (subst (asm) parse_members.simps) (auto split: if_splits option.splits)
    from a c k obtain c1 r2 where c1: "skip_ws r1 = c1 # r2"
      by (subst (asm) parse_members.simps) (auto split: if_splits list.splits)
    from a c k c1 obtain x r3 where x: "parse_value n r2 = Some (x, r3)"
      by (subst (asm) parse_members.simps) (auto split: if_splits option.splits)
    from a c k c1 x obtain c3 r4 where c3: "skip_ws r3 = c3 # r4"
      by (subst (asm) parse_members.simps) (auto split: if_splits list.splits)
    from a c k c1 x c3 have "r = r4 \<or> parse_members n (obj_put k x acc) r4 = Some (v, r)"
      by (subst (asm) parse_members.simps) (auto split: if_splits)
    with skip_ws_Cons_length [OF c] parse_chars_rest [OF k] skip_ws_Cons_length [OF c1]
      V [OF x] skip_ws_Cons_length [OF c3] M [of "obj_put k x acc" r4 v r]
    show ?thesis by auto
  qed
  from 1 2 3 show ?case by blast
qed


lemma parse_fuel_step:
  "(\<forall>s. 2 * length s + 1 \<le> n \<longrightarrow> parse_value (Suc n) s = parse_value n s)
   \<and> (\<forall>acc s. 2 * length s + 2 \<le> n \<longrightarrow> parse_elems (Suc n) acc s = parse_elems n acc s)
   \<and> (\<forall>acc s. 2 * length s + 2 \<le> n \<longrightarrow> parse_members (Suc n) acc s = parse_members n acc s)"
proof (induction n)
  case 0
  then show ?case by simp
next
  case (Suc n)
  note [simp del] = parse_value.simps parse_elems.simps parse_members.simps parse_chars.simps
  from Suc have
    V: "\<And>s. 2 * length s + 1 \<le> n \<Longrightarrow> parse_value (Suc n) s = parse_value n s" and
    E: "\<And>acc s. 2 * length s + 2 \<le> n \<Longrightarrow> parse_elems (Suc n) acc s = parse_elems n acc s" and
    M: "\<And>acc s. 2 * length s + 2 \<le> n \<Longrightarrow> parse_members (Suc n) acc s = parse_members n acc s"
    by blast+
  from parse_rest [of n] have
    R: "\<And>s v r. parse_value n s = Some (v, r) \<Longrightarrow> length r \<le> length s" by blast
  have 1: "parse_value (Suc (Suc n)) s = parse_value (Suc n) s" if b: "2 * length s + 1 \<le> Suc n" for s
  proof (cases "skip_ws s")
    case Nil
    then show ?thesis by (simp add: parse_value_nil)
  next
    case (Cons c cs)
    note lc = skip_ws_Cons_length [OF Cons]
    have rec: "parse_members (Suc n) [] (d # ds) = parse_members n [] (d # ds)"
      "parse_elems (Suc n) [] (d # ds) = parse_elems n [] (d # ds)" if "skip_ws cs = d # ds" for d ds
    proof -
      from that length_skip_ws [of cs] have "length (d # ds) \<le> length cs" by simp
      with lc b have "2 * length (d # ds) + 2 \<le> n" by simp
      then show "parse_members (Suc n) [] (d # ds) = parse_members n [] (d # ds)"
        "parse_elems (Suc n) [] (d # ds) = parse_elems n [] (d # ds)"
        by (rule M, rule E)
    qed
    consider (obj) "c = CHR ''{''" | (arr) "c = CHR ''[''" | (str) "c = CHR 0x22"
      | (other) "c \<noteq> CHR ''{''" "c \<noteq> CHR ''[''" "c \<noteq> CHR 0x22" by blast
    then show ?thesis
    proof cases
      case obj
      with Cons show ?thesis by (auto simp: parse_value_obj rec split: list.splits)
    next
      case arr
      with Cons show ?thesis by (auto simp: parse_value_arr rec split: list.splits)
    next
      case str
      with Cons show ?thesis by (simp add: parse_value_str)
    next
      case other
      show ?thesis by (simp only: parse_value_other [OF Cons other])
    qed
  qed
  have 2: "parse_elems (Suc (Suc n)) acc s = parse_elems (Suc n) acc s"
    if b: "2 * length s + 2 \<le> Suc n" for acc s
  proof -
    from b have v: "parse_value (Suc n) s = parse_value n s" by (intro V) simp
    have rec: "parse_elems (Suc n) (acc @ [x]) cs = parse_elems n (acc @ [x]) cs"
      if "parse_value n s = Some (x, r1)" "skip_ws r1 = c # cs" for x r1 c cs
    proof -
      from R [OF that(1)] skip_ws_Cons_length [OF that(2)] b have "2 * length cs + 2 \<le> n" by simp
      then show ?thesis by (rule E)
    qed
    show ?thesis
      unfolding parse_elems.simps(2) [of "Suc n" acc s] parse_elems.simps(2) [of n acc s] v
      by (auto simp: rec split: option.splits list.splits)
  qed
  have 3: "parse_members (Suc (Suc n)) acc s = parse_members (Suc n) acc s"
    if b: "2 * length s + 2 \<le> Suc n" for acc s
  proof -
    have v: "parse_value (Suc n) r2 = parse_value n r2"
      if "skip_ws s = c # cs" "parse_chars cs = Some (k, r1)" "skip_ws r1 = c1 # r2" for c cs k r1 c1 r2
    proof -
      from skip_ws_Cons_length [OF that(1)] parse_chars_rest [OF that(2)] skip_ws_Cons_length [OF that(3)] b
      have "2 * length r2 + 1 \<le> n" by simp
      then show ?thesis by (rule V)
    qed
    have rec: "parse_members (Suc n) (obj_put k x acc) r4 = parse_members n (obj_put k x acc) r4"
      if "skip_ws s = c # cs" "parse_chars cs = Some (k, r1)" "skip_ws r1 = c1 # r2"
        "parse_value n r2 = Some (x, r3)" "skip_ws r3 = c3 # r4" for c cs k r1 c1 r2 x r3 c3 r4
    proof -
      from skip_ws_Cons_length [OF that(1)] parse_chars_rest [OF that(2)] skip_ws_Cons_length [OF that(3)]
        R [OF that(4)] skip_ws_Cons_length [OF that(5)] b
      have "2 * length r4 + 2 \<le> n" by simp
      then show ?thesis by (rule M)
    qed
    show ?thesis
      unfolding parse_members.simps(2) [of "Suc n" acc s] parse_members.simps(2) [of n acc s]
      by (auto simp: v rec split: option.splits list.splits)
  qed
  from 1 2 3 show ?case by blast
qed

lemma parse_fuel:
  "2 * length s + 1 \<le> n \<Longrightarrow> parse_value n s = parse_value (2 * length s + 1) s"
proof (induction n)
  case 0
  then show ?case by simp
next
  case (Suc n)
  show ?case
  proof (cases "2 * length s + 1 \<le> n")
    case True
    with parse_fuel_step [of n] have "parse_value (Suc n) s = parse_value n s" by blast
    with Suc.IH [OF True] show ?thesis by simp
  next
    case False
    with Suc.prems have "Suc n = 2 * length s + 1" by simp
    then show ?thesis by (simp only:)
  qed
qed

lemma JSON_parse_fuel:
  "2 * length s + 1 \<le> n \<Longrightarrow>
   (case parse_value n s of None \<Rightarrow> None | Some (v, r) \<Rightarrow> if skip_ws r = [] then Some v else None)
     = JSON_parse s"
  by (simp add: JSON_parse_def parse_fuel [of s n] del: parse_value.simps)

text \<open>The digits of a size and the number they parse to.\<close>

lemma is_digit_char_of: "(d::nat) < 10 \<Longrightarrow> is_digit (char_of (48 + d))"
  by (simp add: is_digit_def)

lemma digit_val_char_of: "(d::nat) < 10 \<Longrightarrow> digit_val (char_of (48 + d)) = d"
  by (simp add: digit_val_def)

lemma show_nat_digits: "list_all is_digit (show_nat n)"
proof (induction n rule: show_nat.induct)
  case (1 n)
  then show ?case
    by (subst show_nat.simps) (simp add: is_digit_char_of)
qed

lemma show_nat_nonempty: "show_nat n \<noteq> []"
  by (subst show_nat.simps) simp

lemma digits_val_Nil: "digits_val [] = 0"
  by (simp add: digits_val_def)

lemma digits_val_snoc: "digits_val (ds @ [c]) = 10 * digits_val ds + digit_val c"
  by (simp add: digits_val_def)

lemma digits_val_show_nat: "digits_val (show_nat n) = n"
proof (induction n rule: show_nat.induct)
  case (1 n)
  show ?case
  proof (cases "n < 10")
    case True
    then show ?thesis
      by (subst show_nat.simps) (simp add: digits_val_def digit_val_char_of)
  next
    case False
    with 1 show ?thesis
      by (subst show_nat.simps) (simp add: digits_val_snoc digit_val_char_of)
  qed
qed

lemma hd_show_nat: "0 < n \<Longrightarrow> hd (show_nat n) \<noteq> CHR ''0''"
proof (induction n rule: show_nat.induct)
  case (1 n)
  show ?case
  proof (cases "n < 10")
    case True
    have "char_of (48 + n) \<noteq> CHR ''0''"
    proof
      assume "char_of (48 + n) = CHR ''0''"
      then have "(of_char (char_of (48 + n)) :: nat) = of_char (CHR ''0'')" by simp
      with True "1.prems" show False by simp
    qed
    with True show ?thesis by (subst show_nat.simps) simp
  next
    case False
    then have "0 < n div 10" by simp
    with 1 False have "hd (show_nat (n div 10)) \<noteq> CHR ''0''" by simp
    with False show ?thesis
      by (subst show_nat.simps) (simp add: show_nat_nonempty)
  qed
qed

lemma length_show_nat_zero: "length (show_nat 0) = 1"
  by (subst show_nat.simps) simp

lemma takeWhile_show_nat:
  "\<not> is_digit c \<Longrightarrow> takeWhile is_digit (show_nat n @ c # rest) = show_nat n"
  using show_nat_digits [of n] by (simp add: takeWhile_append2 list_all_iff)

lemma dropWhile_show_nat:
  "\<not> is_digit c \<Longrightarrow> dropWhile is_digit (show_nat n @ c # rest) = c # rest"
  using show_nat_digits [of n] by (simp add: dropWhile_append2 list_all_iff)

lemma show_nat_Cons: "\<exists>d ds. show_nat n = d # ds \<and> is_digit d"
  using show_nat_digits [of n] show_nat_nonempty [of n] by (cases "show_nat n") auto

lemma parse_number_show_nat:
  "parse_number (show_nat n @ CHR '','' # rest) = Some (of_nat n, CHR '','' # rest)"
proof -
  obtain d ds where d: "show_nat n = d # ds" "is_digit d" using show_nat_Cons by blast
  then have m: "d \<noteq> CHR ''-''" by (auto simp: is_digit_def)
  have nd: "\<not> is_digit (CHR '','')" by (simp add: is_digit_def)
  have lead: "\<not> (1 < length (show_nat n) \<and> hd (show_nat n) = CHR ''0'')"
  proof (cases "n = 0")
    case True
    then show ?thesis by (simp add: length_show_nat_zero)
  next
    case False
    then show ?thesis using hd_show_nat [of n] by simp
  qed
  have s1: "(case show_nat n @ CHR '','' # rest of [] \<Rightarrow> (False, show_nat n @ CHR '','' # rest)
       | c # cs \<Rightarrow> if c = CHR ''-'' then (True, cs) else (False, show_nat n @ CHR '','' # rest))
       = (False, show_nat n @ CHR '','' # rest)"
    using d m by simp
  show ?thesis
    unfolding parse_number_def s1
    using lead
    by (simp add: takeWhile_show_nat [OF nd] dropWhile_show_nat [OF nd] show_nat_nonempty
        parse_frac_def parse_exp_def scale10_def digits_val_show_nat digits_val_Nil Let_def)
qed


lemma digit_not_special:
  "is_digit d \<Longrightarrow> \<not> is_ws d \<and> d \<noteq> CHR ''{'' \<and> d \<noteq> CHR ''['' \<and> d \<noteq> CHR 0x22
     \<and> d \<noteq> CHR ''t'' \<and> d \<noteq> CHR ''f'' \<and> d \<noteq> CHR ''n''"
  by (auto simp: is_digit_def is_ws_def)

lemma parse_value_string:
  "parse_value (Suc n) (JSON_quote t @ rest) = Some (JStr t, rest)"
proof -
  have ws: "skip_ws (CHR 0x22 # cs) = CHR 0x22 # cs" for cs
    by (rule skip_ws_cons) (simp add: is_ws_def)
  show ?thesis
    using parse_chars_quoted [of t rest]
    by (simp add: JSON_quote_def ws del: parse_chars.simps)
qed

lemma parse_value_nat:
  "parse_value (Suc n) (show_nat k @ CHR '','' # rest) = Some (JNum (of_nat k), CHR '','' # rest)"
proof -
  obtain d ds where d: "show_nat k = d # ds" "is_digit d" using show_nat_Cons by blast
  note sp = digit_not_special [OF d(2)]
  have ws: "skip_ws (d # ds @ CHR '','' # rest) = d # ds @ CHR '','' # rest"
    using sp by (simp add: skip_ws_cons)
  have pn: "parse_number (d # ds @ CHR '','' # rest) = Some (of_nat k, CHR '','' # rest)"
    using parse_number_show_nat [of k rest] d(1) by simp
  show ?thesis
    using sp d(2) by (simp add: d(1) ws pn del: parse_chars.simps)
qed

lemma skip_ws_punct:
  "skip_ws (CHR '','' # cs) = CHR '','' # cs"
  "skip_ws (CHR '':'' # cs) = CHR '':'' # cs"
  "skip_ws (CHR ''}'' # cs) = CHR ''}'' # cs"
  "skip_ws (CHR '']'' # cs) = CHR '']'' # cs"
  "skip_ws (CHR ''{'' # cs) = CHR ''{'' # cs"
  "skip_ws (CHR 0x22 # cs) = CHR 0x22 # cs"
  by (simp_all add: skip_ws_def is_ws_def)

lemma parse_member_more:
  assumes "parse_value n (vtxt @ CHR '','' # r4) = Some (v, CHR '','' # r4)"
  shows "parse_members (Suc n) acc (member k vtxt @ CHR '','' # r4) = parse_members n (obj_put k v acc) r4"
  using assms parse_chars_quoted [of k "CHR '':'' # vtxt @ CHR '','' # r4"]
  by (simp add: member_def JSON_quote_def skip_ws_punct del: parse_chars.simps)

lemma parse_member_last:
  assumes "parse_value n (vtxt @ CHR ''}'' # r4) = Some (v, CHR ''}'' # r4)"
  shows "parse_members (Suc n) acc (member k vtxt @ CHR ''}'' # r4) = Some (JObj (obj_put k v acc), r4)"
  using assms parse_chars_quoted [of k "CHR '':'' # vtxt @ CHR ''}'' # r4"]
  by (simp add: member_def JSON_quote_def skip_ws_punct del: parse_chars.simps)

lemma member_starts: "\<exists>cs. member k v = CHR 0x22 # cs"
  by (simp add: member_def JSON_quote_def)

lemma parse_members_image:
  "parse_members (Suc (Suc (Suc (Suc (Suc (Suc n)))))) []
     (member ''id'' (JSON_quote (img_id r)) @
      CHR '','' # member ''name'' (JSON_quote (img_name r)) @
      CHR '','' # member ''src'' (JSON_quote (img_src r)) @
      CHR '','' # member ''size'' (show_nat (img_size r)) @
      CHR '','' # member ''uploadDate'' (JSON_quote (img_uploadDate r)) @ CHR ''}'' # rest)
   = Some (to_json r, rest)"
proof -
  note [simp del] = parse_members.simps parse_value.simps parse_chars.simps
  have str: "parse_members (Suc (Suc m)) acc (member k (JSON_quote t) @ CHR '','' # r4)
      = parse_members (Suc m) (obj_put k (JStr t) acc) r4" for m acc k t r4
    by (rule parse_member_more) (rule parse_value_string)
  have num: "parse_members (Suc (Suc m)) acc (member k (show_nat z) @ CHR '','' # r4)
      = parse_members (Suc m) (obj_put k (JNum (of_nat z)) acc) r4" for m acc k z r4
    by (rule parse_member_more) (rule parse_value_nat)
  have last: "parse_members (Suc (Suc m)) acc (member k (JSON_quote t) @ CHR ''}'' # r4)
      = Some (JObj (obj_put k (JStr t) acc), r4)" for m acc k t r4
    by (rule parse_member_last) (rule parse_value_string)
  show ?thesis
    by (simp add: str num last to_json_def)
qed

lemma parse_value_image:
  "parse_value (Suc (Suc (Suc (Suc (Suc (Suc (Suc n))))))) (stringify_image r @ rest) = Some (to_json r, rest)"
proof -
  obtain cs where cs: "member ''id'' (JSON_quote (img_id r)) = CHR 0x22 # cs"
    using member_starts by blast
  have "parse_value (Suc (Suc (Suc (Suc (Suc (Suc (Suc n))))))) (stringify_image r @ rest)
      = parse_members (Suc (Suc (Suc (Suc (Suc (Suc n)))))) []
     (member ''id'' (JSON_quote (img_id r)) @
      CHR '','' # member ''name'' (JSON_quote (img_name r)) @
      CHR '','' # member ''src'' (JSON_quote (img_src r)) @
      CHR '','' # member ''size'' (show_nat (img_size r)) @
      CHR '','' # member ''uploadDate'' (JSON_quote (img_uploadDate r)) @ CHR ''}'' # rest)"
    by (simp add: stringify_image_def cs skip_ws_punct del: parse_chars.simps parse_members.simps)
  then show ?thesis by (simp only: parse_members_image)
qed


lemma parse_value_image_fuel:
  "7 \<le> m \<Longrightarrow> parse_value m (stringify_image r @ rest) = Some (to_json r, rest)"
proof -
  assume "7 \<le> m"
  then obtain n where "m = 7 + n"
    using le_Suc_ex by blast
  then have "m = Suc (Suc (Suc (Suc (Suc (Suc (Suc n))))))"
    by simp
  then show ?thesis by (simp only: parse_value_image)
qed

lemma parse_elems_images:
  "imgs \<noteq> [] \<Longrightarrow> length imgs + 7 \<le> m \<Longrightarrow>
   parse_elems m acc (join_comma (map stringify_image imgs) @ CHR '']'' # rest)
     = Some (JArr (acc @ map to_json imgs), rest)"
proof (induction imgs arbitrary: m acc)
  case Nil
  then show ?case by simp
next
  case (Cons x xs)
  from Cons.prems obtain k where m: "m = Suc k" and k: "length xs + 7 \<le> k"
    by (cases m) auto
  have k7: "7 \<le> k" using k by simp
  show ?case
  proof (cases xs)
    case Nil
    have v: "parse_value k (stringify_image x @ CHR '']'' # rest) = Some (to_json x, CHR '']'' # rest)"
      using k7 by (rule parse_value_image_fuel)
    show ?thesis
      by (simp add: m Nil v skip_ws_punct del: parse_value.simps)
  next
    case (Cons y ys)
    have v: "parse_value k (stringify_image x @ CHR '','' # t) = Some (to_json x, CHR '','' # t)" for t
      using k7 by (rule parse_value_image_fuel)
    have ih: "parse_elems k (acc @ [to_json x]) (join_comma (map stringify_image xs) @ CHR '']'' # rest)
        = Some (JArr ((acc @ [to_json x]) @ map to_json xs), rest)"
      using Cons k by (intro Cons.IH) simp_all
    show ?thesis
      using ih by (simp add: m Cons v skip_ws_punct del: parse_value.simps)
  qed
qed

lemma length_stringify_image: "7 \<le> length (stringify_image r)"
  by (simp add: stringify_image_def member_def JSON_quote_def)

lemma length_join_comma: "7 * length imgs \<le> length (join_comma (map stringify_image imgs))"
proof (induction imgs rule: induct_list012)
  case 1
  then show ?case by simp
next
  case (2 x)
  then show ?case using length_stringify_image [of x] by simp
next
  case (3 x y zs)
  then show ?case using length_stringify_image [of x] by simp
qed

lemma stringify_image_starts: "\<exists>cs. stringify_image r = CHR ''{'' # cs"
  by (simp add: stringify_image_def)

lemma join_comma_starts:
  "imgs \<noteq> [] \<Longrightarrow> \<exists>cs. join_comma (map stringify_image imgs) = CHR ''{'' # cs"
proof (cases imgs)
  case Nil
  then show "imgs \<noteq> [] \<Longrightarrow> ?thesis" by simp
next
  case (Cons x xs)
  then show ?thesis using stringify_image_starts [of x] by (cases xs) auto
qed

lemma JSON_parse_stringify:
  "JSON_parse (JSON_stringify imgs) = Some (JArr (map to_json imgs))"
proof (cases "imgs = []")
  case True
  have "JSON_parse (JSON_stringify []) = Some (JArr [])"
    by code_simp
  with True show ?thesis by simp
next
  case False
  obtain cs where cs: "join_comma (map stringify_image imgs) = CHR ''{'' # cs"
    using join_comma_starts [OF False] by blast
  have fuel: "length imgs + 7 \<le> 2 * length (JSON_stringify imgs)"
    using length_join_comma [of imgs] False
    by (cases imgs) (simp_all add: JSON_stringify_def)
  have e: "parse_elems (2 * length (JSON_stringify imgs)) []
           (join_comma (map stringify_image imgs) @ CHR '']'' # []) = Some (JArr ([] @ map to_json imgs), [])"
    using False fuel by (rule parse_elems_images)
  have ws: "skip_ws (JSON_stringify imgs) = CHR ''['' # CHR ''{'' # cs @ [CHR '']'']"
    by (simp add: JSON_stringify_def cs skip_ws_def is_ws_def)
  have "parse_value (Suc (2 * length (JSON_stringify imgs))) (JSON_stringify imgs)
      = parse_elems (2 * length (JSON_stringify imgs)) [] (CHR ''{'' # cs @ [CHR '']''])"
    by (simp only: parse_value_arr [OF ws]) (simp add: skip_ws_punct del: parse_elems.simps)
  with e cs show ?thesis
    by (simp add: JSON_parse_def skip_ws_def del: parse_value.simps parse_elems.simps)
qed

lemma as_nat_of_nat: "as_nat (Some (JNum (of_nat k))) = Some k"
proof -
  have "quotient_of (of_nat k) = (int k, 1)"
    using quotient_of_int [of "int k"] by simp
  then show ?thesis by (simp add: as_nat_def)
qed

lemma decode_image_to_json: "decode_image (to_json r) = Some r"
  by (simp add: decode_image_def to_json_def as_string_def as_nat_of_nat)

lemma decode_images_to_json: "decode_images (JArr (map to_json imgs)) = Some imgs"
  by (induction imgs) (simp_all add: decode_images_def decode_image_to_json)

lemma JSON_stringify_nonempty: "JSON_stringify imgs \<noteq> []"
  by (simp add: JSON_stringify_def)

lemma JSON_parse_garbage: "JSON_parse ''{not json'' = None"
  by code_simp

lemma JSON_parse_number: "JSON_parse ''42'' = Some (JNum 42)"
  by code_simp

text \<open>
  A stored text that parses, but not to an array of records, is not caught: it goes to
  \<open>setImages\<close> as it is.
\<close>

lemma load_images_other_shape:
  "load_images \<lparr>gallery_images = Some ''42'', theme = None\<rparr> s = Inl (JNum 42)"
  by (simp add: load_images_def JSON_parse_number decode_images_def)

section \<open>Ingestion, deletion, filter and theme: the claims\<close>

text \<open>
  Claim C1. When every file of the batch that is read is read with success, ingestion
  appends to the collection, in the order of the batch, one record for each file whose
  content type starts with \<open>image/\<close> and none for any other file: the names of the new
  records are the file names with the extension stripped, their sizes the file sizes,
  their contents what the reads returned. A batch of \<open>N\<close> image files thus appends
  exactly \<open>N\<close> records. This holds for the handler run to its end, and for the handler
  suspended at its reads while other handlers change the state: the same records are
  appended, in one update, to the collection as it is when the last read settles, and as
  long as the handler is suspended on a read the collection is as it was. With nothing
  running in between, the suspended handler ends in the state of the handler run to its
  end. Stripping the extension of \<open>base.ext\<close> gives \<open>base\<close>, and a name without such an
  extension is kept.
\<close>

theorem handleFileUpload_appends:
  assumes "\<forall>f\<in>set files. startsWith (file_type f) ''image/'' \<longrightarrow> (\<exists>d. readAsDataURL E f = Inr d)"
  shows "(\<exists>new. images (handleFileUpload E s (Some files)) = images s @ new
     \<and> map img_name new =
         map (\<lambda>f. strip_ext (file_name f)) (filter (\<lambda>f. startsWith (file_type f) ''image/'') files)
     \<and> map img_size new = map file_size (filter (\<lambda>f. startsWith (file_type f) ''image/'') files)
     \<and> map (\<lambda>r. Inr (img_src r)) new =
         map (readAsDataURL E) (filter (\<lambda>f. startsWith (file_type f) ''image/'') files)
     \<and> ((\<forall>f\<in>set files. startsWith (file_type f) ''image/'') \<longrightarrow> length new = length files)
     \<and> (\<forall>gs. files \<noteq> []
            \<and> length gs = length (filter (\<lambda>f. startsWith (file_type f) ''image/'') files) \<longrightarrow>
          upload_run E gs (upload_start s (Some files))
            = (upload_finally
                 ((fold (\<lambda>g t. g t) gs (s\<lparr>uploading := True\<rparr>))
                    \<lparr>images := images (fold (\<lambda>g t. g t) gs (s\<lparr>uploading := True\<rparr>)) @ new\<rparr>),
               None)))
   \<and> upload_run E
        (replicate (length (filter (\<lambda>f. startsWith (file_type f) ''image/'') files)) (\<lambda>t. t))
        (upload_start s (Some files))
      = (handleFileUpload E s (Some files), None)
   \<and> (\<forall>base ext. ext_chars ext \<longrightarrow> strip_ext (base @ CHR ''.'' # ext) = base)
   \<and> (\<forall>name. (\<forall>base ext. name = base @ CHR ''.'' # ext \<longrightarrow> \<not> ext_chars ext) \<longrightarrow> strip_ext name = name)
   \<and> (\<forall>t p. upload_start t (Some files) = (t', Some p) \<longrightarrow> images t' = images t)
   \<and> (\<forall>t p res p'. upload_resume E t p res = (t', Some p') \<longrightarrow> images t' = images t)"
proof -
  from upload_loop_ok [OF assms, of 0 "[]"]
  obtain new where new: "upload_loop E 0 files [] = Inr new"
     "map img_name new =
        map (\<lambda>f. strip_ext (file_name f)) (filter (\<lambda>f. startsWith (file_type f) ''image/'') files)"
     "map img_size new = map file_size (filter (\<lambda>f. startsWith (file_type f) ''image/'') files)"
     "map (\<lambda>r. Inr (img_src r)) new =
        map (readAsDataURL E) (filter (\<lambda>f. startsWith (file_type f) ''image/'') files)"
    by auto
  have len: "length new = length (filter (\<lambda>f. startsWith (file_type f) ''image/'') files)"
    using new(3) by (metis length_map)
  have img: "images (handleFileUpload E s (Some files)) = images s @ new"
  proof (cases "files = []")
    case True
    with new(1) show ?thesis by (simp add: handleFileUpload_def)
  next
    case False
    with new(1) show ?thesis by (simp add: handleFileUpload_def upload_finally_def)
  qed
  have all: "(\<forall>f\<in>set files. startsWith (file_type f) ''image/'') \<longrightarrow> length new = length files"
    using len by (auto simp: filter_id_conv)
  have run: "\<forall>gs. files \<noteq> []
            \<and> length gs = length (filter (\<lambda>f. startsWith (file_type f) ''image/'') files) \<longrightarrow>
          upload_run E gs (upload_start s (Some files))
            = (upload_finally
                 ((fold (\<lambda>g t. g t) gs (s\<lparr>uploading := True\<rparr>))
                    \<lparr>images := images (fold (\<lambda>g t. g t) gs (s\<lparr>uploading := True\<rparr>)) @ new\<rparr>),
               None)"
  proof (intro allI impI)
    fix gs :: "(app_state \<Rightarrow> app_state) list"
    assume h: "files \<noteq> []
      \<and> length gs = length (filter (\<lambda>f. startsWith (file_type f) ''image/'') files)"
    then have l: "length gs = length (filter (\<lambda>f. startsWith (file_type f) ''image/'') files)"
      by simp
    have st: "upload_start s (Some files)
        = (case upload_next 0 files [] of
             Inl p \<Rightarrow> (s\<lparr>uploading := True\<rparr>, Some p)
           | Inr newImages \<Rightarrow> (upload_commit (s\<lparr>uploading := True\<rparr>) newImages, None))"
      using h by (simp add: upload_start_def Let_def)
    show "upload_run E gs (upload_start s (Some files))
            = (upload_finally
                 ((fold (\<lambda>g t. g t) gs (s\<lparr>uploading := True\<rparr>))
                    \<lparr>images := images (fold (\<lambda>g t. g t) gs (s\<lparr>uploading := True\<rparr>)) @ new\<rparr>),
               None)"
      unfolding st upload_run_interleaved [OF new(1) l]
      by (simp add: upload_commit_def)
  qed
  have 1: "\<exists>new. images (handleFileUpload E s (Some files)) = images s @ new
     \<and> map img_name new =
         map (\<lambda>f. strip_ext (file_name f)) (filter (\<lambda>f. startsWith (file_type f) ''image/'') files)
     \<and> map img_size new = map file_size (filter (\<lambda>f. startsWith (file_type f) ''image/'') files)
     \<and> map (\<lambda>r. Inr (img_src r)) new =
         map (readAsDataURL E) (filter (\<lambda>f. startsWith (file_type f) ''image/'') files)
     \<and> ((\<forall>f\<in>set files. startsWith (file_type f) ''image/'') \<longrightarrow> length new = length files)
     \<and> (\<forall>gs. files \<noteq> []
            \<and> length gs = length (filter (\<lambda>f. startsWith (file_type f) ''image/'') files) \<longrightarrow>
          upload_run E gs (upload_start s (Some files))
            = (upload_finally
                 ((fold (\<lambda>g t. g t) gs (s\<lparr>uploading := True\<rparr>))
                    \<lparr>images := images (fold (\<lambda>g t. g t) gs (s\<lparr>uploading := True\<rparr>)) @ new\<rparr>),
               None))"
    apply (rule exI [of _ new])
    using img new(2,3,4) all run by blast
  have 2: "upload_run E
        (replicate (length (filter (\<lambda>f. startsWith (file_type f) ''image/'') files)) (\<lambda>t. t))
        (upload_start s (Some files))
      = (handleFileUpload E s (Some files), None)"
  proof (cases "files = []")
    case True
    then show ?thesis by (simp add: upload_start_def handleFileUpload_def)
  next
    case False
    have st: "upload_start s (Some files)
        = (case upload_next 0 files [] of
             Inl p \<Rightarrow> (s\<lparr>uploading := True\<rparr>, Some p)
           | Inr newImages \<Rightarrow> (upload_commit (s\<lparr>uploading := True\<rparr>) newImages, None))"
      using False by (simp add: upload_start_def Let_def)
    have h: "handleFileUpload E s (Some files)
        = (case upload_loop E 0 files [] of
             Inr newImages \<Rightarrow> upload_commit (s\<lparr>uploading := True\<rparr>) newImages
           | Inl err \<Rightarrow> upload_finally (s\<lparr>uploading := True\<rparr>))"
      using False by (simp add: handleFileUpload_def Let_def upload_commit_def split: sum.split)
    show ?thesis
      unfolding st h by (rule upload_run_loop) simp
  qed
  have 3: "\<forall>base ext. ext_chars ext \<longrightarrow> strip_ext (base @ CHR ''.'' # ext) = base"
    using strip_ext_base by blast
  have 4: "\<forall>name. (\<forall>base ext. name = base @ CHR ''.'' # ext \<longrightarrow> \<not> ext_chars ext) \<longrightarrow> strip_ext name = name"
    using strip_ext_none by blast
  have 5: "\<forall>t p. upload_start t (Some files) = (t', Some p) \<longrightarrow> images t' = images t"
    using upload_start_pending by fastforce
  have 6: "\<forall>t p res p'. upload_resume E t p res = (t', Some p') \<longrightarrow> images t' = images t"
    using upload_resume_pending by blast
  from 1 2 3 4 5 6 show ?thesis by blast
qed

text \<open>
  The theorem at a concrete input: a batch of two images and a text file, on a collection
  of one record; in the second run that record is deleted while the first image is read.
\<close>

theorem handleFileUpload_appends_witness:
  "map img_name (images (handleFileUpload env_ok (initial_state None\<lparr>images := [img_a]\<rparr>)
       (Some [photo_png, notes_txt, cat_gif])))
     = [''Photo of Rome'', ''photo'', ''my.cat'']
   \<and> map img_size (images (handleFileUpload env_ok (initial_state None\<lparr>images := [img_a]\<rparr>)
       (Some [photo_png, notes_txt, cat_gif])))
     = [2048, 2048, 77]
   \<and> map img_name (images (fst (upload_run env_ok [deleteImage ''a1'', (\<lambda>t. t)]
       (upload_start (initial_state None\<lparr>images := [img_a]\<rparr>) (Some [photo_png, notes_txt, cat_gif])))))
     = [''photo'', ''my.cat'']"
proof -
  have h: "\<forall>f\<in>set [photo_png, notes_txt, cat_gif].
      startsWith (file_type f) ''image/'' \<longrightarrow> (\<exists>d. readAsDataURL env_ok f = Inr d)"
    by (simp add: env_ok_def)
  have l: "[photo_png, notes_txt, cat_gif] \<noteq> [] \<and> length [deleteImage ''a1'', (\<lambda>t. t)]
      = length (filter (\<lambda>f. startsWith (file_type f) ''image/'') [photo_png, notes_txt, cat_gif])"
    by (simp add: photo_png_def notes_txt_def cat_gif_def startsWith_def)
  from handleFileUpload_appends [OF h, of "initial_state None\<lparr>images := [img_a]\<rparr>"]
  obtain new where new:
    "images (handleFileUpload env_ok (initial_state None\<lparr>images := [img_a]\<rparr>) (Some [photo_png, notes_txt, cat_gif]))
       = images (initial_state None\<lparr>images := [img_a]\<rparr>) @ new"
    "map img_name new = map (\<lambda>f. strip_ext (file_name f))
        (filter (\<lambda>f. startsWith (file_type f) ''image/'') [photo_png, notes_txt, cat_gif])"
    "map img_size new = map file_size
        (filter (\<lambda>f. startsWith (file_type f) ''image/'') [photo_png, notes_txt, cat_gif])"
    "\<forall>gs. [photo_png, notes_txt, cat_gif] \<noteq> []
       \<and> length gs = length (filter (\<lambda>f. startsWith (file_type f) ''image/'') [photo_png, notes_txt, cat_gif]) \<longrightarrow>
      upload_run env_ok gs (upload_start (initial_state None\<lparr>images := [img_a]\<rparr>) (Some [photo_png, notes_txt, cat_gif]))
        = (upload_finally
             ((fold (\<lambda>g t. g t) gs (initial_state None\<lparr>images := [img_a]\<rparr>\<lparr>uploading := True\<rparr>))
                \<lparr>images := images (fold (\<lambda>g t. g t) gs (initial_state None\<lparr>images := [img_a]\<rparr>\<lparr>uploading := True\<rparr>)) @ new\<rparr>),
           None)"
    by blast
  have names: "map img_name new = [''photo'', ''my.cat'']" and sizes: "map img_size new = [2048, 77]"
    using new(2,3)
    by (simp_all add: photo_png_def notes_txt_def cat_gif_def startsWith_def ext_chars_def)
  from new(4) l have run: "upload_run env_ok [deleteImage ''a1'', (\<lambda>t. t)]
      (upload_start (initial_state None\<lparr>images := [img_a]\<rparr>) (Some [photo_png, notes_txt, cat_gif]))
        = (upload_finally
             ((fold (\<lambda>g t. g t) [deleteImage ''a1'', (\<lambda>t. t)] (initial_state None\<lparr>images := [img_a]\<rparr>\<lparr>uploading := True\<rparr>))
                \<lparr>images := images (fold (\<lambda>g t. g t) [deleteImage ''a1'', (\<lambda>t. t)] (initial_state None\<lparr>images := [img_a]\<rparr>\<lparr>uploading := True\<rparr>)) @ new\<rparr>),
           None)"
    by blast
  have del: "images (fold (\<lambda>g t. g t) [deleteImage ''a1'', (\<lambda>t. t)] (initial_state None\<lparr>images := [img_a]\<rparr>\<lparr>uploading := True\<rparr>)) = []"
    by (simp add: deleteImage_def delete_from_def img_a_def)
  have r3: "map img_name (images (fst (upload_run env_ok [deleteImage ''a1'', (\<lambda>t. t)]
       (upload_start (initial_state None\<lparr>images := [img_a]\<rparr>) (Some [photo_png, notes_txt, cat_gif])))))
     = [''photo'', ''my.cat'']"
    by (simp only: run fst_conv upload_finally_fields del) (simp add: names)
  have r12: "map img_name (images (handleFileUpload env_ok (initial_state None\<lparr>images := [img_a]\<rparr>)
       (Some [photo_png, notes_txt, cat_gif])))
     = [''Photo of Rome'', ''photo'', ''my.cat'']
   \<and> map img_size (images (handleFileUpload env_ok (initial_state None\<lparr>images := [img_a]\<rparr>)
       (Some [photo_png, notes_txt, cat_gif])))
     = [2048, 2048, 77]"
    using new(1) names sizes by (simp add: img_a_def)
  from r12 r3 show ?thesis by blast
qed

text \<open>
  Claim C2. If the read of some file of the batch fails, no record of the batch is
  committed, whatever was read with success before: the collection after the batch is the
  collection before it. At the failing read itself, in whatever state the component is by
  then, the handler ends and leaves the collection as it finds it.
\<close>

theorem handleFileUpload_failed_read:
  assumes "f \<in> set files" and "startsWith (file_type f) ''image/''"
    and "readAsDataURL E f = Inl err"
  shows "images (handleFileUpload E s (Some files)) = images s
    \<and> (\<forall>t p. images (fst (upload_resume E t p (Inl err))) = images t
           \<and> snd (upload_resume E t p (Inl err)) = None)"
proof -
  from upload_loop_fails [OF assms] obtain e where "upload_loop E 0 files [] = Inl e" by blast
  then have "images (handleFileUpload E s (Some files)) = images s"
    by (simp add: handleFileUpload_def upload_finally_def)
  moreover have "\<forall>t p. images (fst (upload_resume E t p (Inl err))) = images t
           \<and> snd (upload_resume E t p (Inl err)) = None"
    by (simp add: upload_resume_def upload_finally_fields)
  ultimately show ?thesis by blast
qed

text \<open>The theorem at a concrete input.\<close>

theorem handleFileUpload_failed_read_witness:
  "images (handleFileUpload env_broken (initial_state None\<lparr>images := [img_a]\<rparr>)
     (Some [photo_png, cat_gif, notes_txt])) = [img_a]"
proof -
  have 1: "cat_gif \<in> set [photo_png, cat_gif, notes_txt]" by simp
  have 2: "startsWith (file_type cat_gif) ''image/''" by (simp add: cat_gif_def startsWith_def)
  have 3: "readAsDataURL env_broken cat_gif = Inl (ReadError ''NotReadableError'')"
    by (simp add: env_broken_def cat_gif_def)
  from handleFileUpload_failed_read [OF 1 2 3, of "initial_state None\<lparr>images := [img_a]\<rparr>"]
  show ?thesis by simp
qed

text \<open>
  Claim C3. Deleting an id that exactly one record of the collection carries removes that
  record and leaves the others, in their order; deleting an id that no record carries
  leaves the collection as it is. For every collection and id the result is a subsequence
  of the collection and holds exactly its records with another id.
\<close>

theorem deleteImage_single:
  "(images s = before @ r # after \<and> img_id r = imageId
      \<and> (\<forall>x\<in>set before \<union> set after. img_id x \<noteq> imageId)
      \<longrightarrow> images (deleteImage imageId s) = before @ after)
   \<and> ((\<forall>x\<in>set (images s). img_id x \<noteq> imageId) \<longrightarrow> images (deleteImage imageId s) = images s)
   \<and> subseq (images (deleteImage imageId s)) (images s)
   \<and> set (images (deleteImage imageId s)) = {x \<in> set (images s). img_id x \<noteq> imageId}"
  by (auto simp add: deleteImage_def delete_from_def filter_id_conv)

text \<open>The theorem at a concrete input.\<close>

theorem deleteImage_single_witness:
  "images (deleteImage ''a1'' (initial_state None\<lparr>images := [img_b, img_a, img_b]\<rparr>)) = [img_b, img_b]
   \<and> images (deleteImage ''zz'' (initial_state None\<lparr>images := [img_b, img_a, img_b]\<rparr>)) = [img_b, img_a, img_b]"
proof -
  have 1: "images (initial_state None\<lparr>images := [img_b, img_a, img_b]\<rparr>) = [img_b] @ img_a # [img_b]
      \<and> img_id img_a = ''a1'' \<and> (\<forall>x\<in>set [img_b] \<union> set [img_b]. img_id x \<noteq> ''a1'')"
    by (simp add: img_a_def img_b_def)
  have 2: "\<forall>x\<in>set (images (initial_state None\<lparr>images := [img_b, img_a, img_b]\<rparr>)). img_id x \<noteq> ''zz''"
    by (simp add: img_a_def img_b_def)
  from deleteImage_single [of "initial_state None\<lparr>images := [img_b, img_a, img_b]\<rparr>" "[img_b]" img_a "[img_b]" "''a1''"] 1
    deleteImage_single [of "initial_state None\<lparr>images := [img_b, img_a, img_b]\<rparr>" "[]" img_a "[]" "''zz''"] 2
  show ?thesis by simp
qed

text \<open>
  Claim C4, as stated, fails: the filter compares the lower-cased name with the lower-cased
  query, and lower-casing is not done letter by letter. The name of \<open>img_greek\<close> has the
  query \<open>greek_as\<close> as a literal substring, but the capital sigma of the query stands at
  the end of a word and that of the name does not, so the two are lower-cased to different
  letters and the record is not returned.
\<close>

theorem filter_sigma_counterexample:
  "includes_str (img_name img_greek) greek_as
   \<and> spec_ci_substring (img_name img_greek) greek_as
   \<and> filter_images toLowerCase_sample [img_greek] greek_as = []"
  by code_simp

text \<open>
  Claim C4, amended. For every collection and query the view filter returns, in the order
  of the collection, exactly the records whose lower-cased name contains the lower-cased
  query as a substring; the empty query returns the whole collection, and a query that no
  lower-cased name contains returns the empty sequence. Where lower-casing turns the
  letters \<open>A\<close> to \<open>Z\<close> into \<open>a\<close> to \<open>z\<close> and keeps the rest, as it does on texts of ASCII
  characters, these are exactly the records whose name contains the query as a
  case-insensitive substring.
\<close>

theorem filter_images_lowered:
  "filter_images lc imgs query
     = filter (\<lambda>r. \<exists>pre suf. lc (img_name r) = pre @ lc query @ suf) imgs
   \<and> (lc [] = [] \<longrightarrow> filter_images lc imgs [] = imgs)
   \<and> ((\<forall>r\<in>set imgs. \<not> (\<exists>pre suf. lc (img_name r) = pre @ lc query @ suf))
        \<longrightarrow> filter_images lc imgs query = [])
   \<and> ((\<forall>r\<in>set imgs. lc (img_name r) = map ascii_lower (img_name r))
        \<and> lc query = map ascii_lower query
        \<longrightarrow> filter_images lc imgs query = filter (\<lambda>r. spec_ci_substring (img_name r) query) imgs)"
proof -
  have 1: "filter_images lc imgs q
      = filter (\<lambda>r. \<exists>pre suf. lc (img_name r) = pre @ lc q @ suf) imgs" for q
    by (simp add: filter_images_def includes_str_infix)
  have t: "\<exists>pre suf. x = pre @ suf" for x :: string
    by (rule exI [of _ "[]"]) simp
  have 2: "lc [] = [] \<longrightarrow> filter_images lc imgs [] = imgs"
    by (simp add: 1 t)
  have 3: "(\<forall>r\<in>set imgs. \<not> (\<exists>pre suf. lc (img_name r) = pre @ lc query @ suf))
        \<longrightarrow> filter_images lc imgs query = []"
    by (simp add: 1 filter_empty_conv)
  have 4: "(\<forall>r\<in>set imgs. lc (img_name r) = map ascii_lower (img_name r))
        \<and> lc query = map ascii_lower query
        \<longrightarrow> filter_images lc imgs query = filter (\<lambda>r. spec_ci_substring (img_name r) query) imgs"
  proof
    assume h: "(\<forall>r\<in>set imgs. lc (img_name r) = map ascii_lower (img_name r))
        \<and> lc query = map ascii_lower query"
    have "filter (\<lambda>image. includes_str (lc (img_name image)) (lc query)) imgs
        = filter (\<lambda>r. spec_ci_substring (img_name r) query) imgs"
      by (rule filter_cong [OF refl]) (simp add: h includes_lower_iff)
    then show "filter_images lc imgs query = filter (\<lambda>r. spec_ci_substring (img_name r) query) imgs"
      by (simp add: filter_images_def)
  qed
  from 1 [of query] 2 3 4 show ?thesis by blast
qed

text \<open>The theorem at a concrete input.\<close>

theorem filter_images_lowered_witness:
  "filter_images toLowerCase_sample [img_a, img_b] ''PHO'' = [img_a]
   \<and> filter_images toLowerCase_sample [img_a, img_b] [] = [img_a, img_b]"
proof -
  have h: "(\<forall>r\<in>set [img_a, img_b]. toLowerCase_sample (img_name r) = map ascii_lower (img_name r))
      \<and> toLowerCase_sample ''PHO'' = map ascii_lower ''PHO''"
    by (simp add: toLowerCase_sample_def img_a_def img_b_def greek_asa_def greek_as_def)
  have e: "toLowerCase_sample [] = []"
    by (simp add: toLowerCase_sample_def greek_asa_def greek_as_def)
  have a: "spec_ci_substring (img_name img_a) ''PHO''"
    by code_simp
  have b: "\<not> spec_ci_substring (img_name img_b) ''PHO''"
    by code_simp
  from filter_images_lowered [of toLowerCase_sample "[img_a, img_b]" "''PHO''"] h
  have 1: "filter_images toLowerCase_sample [img_a, img_b] ''PHO''
      = filter (\<lambda>r. spec_ci_substring (img_name r) ''PHO'') [img_a, img_b]"
    by blast
  from filter_images_lowered [of toLowerCase_sample "[img_a, img_b]" "[]"] e
  have 2: "filter_images toLowerCase_sample [img_a, img_b] [] = [img_a, img_b]"
    by blast
  from 1 2 a b show ?thesis by simp
qed

text \<open>
  Claim C8. Called with a null or an empty file list, the upload handler changes nothing:
  neither the uploading flag, nor the collection, nor the file input.
\<close>

theorem handleFileUpload_noop:
  "handleFileUpload E s None = s \<and> handleFileUpload E s (Some []) = s"
  by (simp add: handleFileUpload_def)

text \<open>The theorem at a concrete input.\<close>

theorem handleFileUpload_noop_witness:
  "uploading (handleFileUpload env_ok (initial_state (Some ''photo.png'')\<lparr>uploading := True\<rparr>) (Some []))
   \<and> fileInputValue (handleFileUpload env_ok (initial_state (Some ''photo.png'')) None) = Some ''photo.png''"
  using handleFileUpload_noop [of env_ok "initial_state (Some ''photo.png'')\<lparr>uploading := True\<rparr>"]
    handleFileUpload_noop [of env_ok "initial_state (Some ''photo.png'')"]
  by (simp add: initial_state_def)

text \<open>
  Claim C9. At startup, where the theme is light, the theme becomes dark if and only if
  the stored theme is exactly the text \<open>dark\<close>; with any other stored value, or none,
  the state stays as it was.
\<close>

theorem load_theme_dark_iff:
  "(\<not> isDarkMode s \<longrightarrow> (isDarkMode (load_theme st s) \<longleftrightarrow> theme st = Some ''dark''))
   \<and> (theme st \<noteq> Some ''dark'' \<longrightarrow> load_theme st s = s)
   \<and> \<not> isDarkMode (initial_state inp)"
  by (simp add: load_theme_def initial_state_def)

text \<open>The theorem at a concrete input.\<close>

theorem load_theme_dark_iff_witness:
  "isDarkMode (load_theme \<lparr>gallery_images = None, theme = Some ''dark''\<rparr> (initial_state None))
   \<and> \<not> isDarkMode (load_theme \<lparr>gallery_images = None, theme = Some ''Dark''\<rparr> (initial_state None))
   \<and> load_theme \<lparr>gallery_images = None, theme = None\<rparr> (initial_state None) = initial_state None"
  using load_theme_dark_iff [of "initial_state None" "\<lparr>gallery_images = None, theme = Some ''dark''\<rparr>" None]
    load_theme_dark_iff [of "initial_state None" "\<lparr>gallery_images = None, theme = Some ''Dark''\<rparr>" None]
    load_theme_dark_iff [of "initial_state None" "\<lparr>gallery_images = None, theme = None\<rparr>" None]
  by simp

text \<open>
  Claim C10. The output of the view filter is a subsequence of the collection: every
  returned record is in the collection, none occurs more often than there, and the order
  is that of the collection. This holds whatever lower-casing does.
\<close>

theorem filter_images_subseq:
  "subseq (filteredImages lc s) (images s)
   \<and> set (filteredImages lc s) \<subseteq> set (images s)
   \<and> (\<forall>r. count_list (filteredImages lc s) r \<le> count_list (images s) r)
   \<and> filteredImages lc s = filter_images lc (images s) (searchTerm s)"
proof -
  have "count_list (filter P xs) r \<le> count_list xs r" for P and xs :: "image_data list" and r
    by (induction xs) auto
  then show ?thesis by (simp add: filteredImages_def filter_images_def)
qed

text \<open>The theorem at a concrete input.\<close>

theorem filter_images_subseq_witness:
  "subseq (filter_images toLowerCase_sample [img_a, img_b, img_a] ''rome'') [img_a, img_b, img_a]
   \<and> set (filter_images toLowerCase_sample [img_a, img_b, img_a] ''rome'') \<subseteq> set [img_a, img_b, img_a]"
  using filter_images_subseq
    [of toLowerCase_sample "initial_state None\<lparr>images := [img_a, img_b, img_a], searchTerm := ''rome''\<rparr>"]
  by (simp add: filteredImages_def)

section \<open>The uploading flag: the claim\<close>

text \<open>
  Claim C7, as stated, fails: the upload area accepts a drop while a batch is being read,
  and of two batches in flight the first to end clears the flag although a read of the
  other is still outstanding. In \<open>overlap_run\<close> a batch is started, a second one is
  started, and the read of the first is settled.
\<close>

theorem upload_flag_overlap_counterexample:
  "snd overlap_run \<noteq> [] \<and> \<not> uploading (fst overlap_run) \<and> \<not> flag_tracks_reads overlap_run"
  by (simp add: overlap_run_def flag_tracks_reads_def upload_start_def upload_resume_def upload_commit_def
      upload_finally_def initial_state_def photo_png_def cat_gif_def env_ok_def startsWith_def
      mk_image_def remove_nth_def)

text \<open>
  Claim C7, amended. Every batch that is started ends, with success or with a failed
  read, with the uploading flag cleared and the value of the file input, when there is
  one, reset to the empty text; this holds for the handler run to its end, for a batch
  that ends without a read and for a batch that ends when a read is settled, in whatever
  state the component is by then. A batch that suspends on its first read has set the
  flag, and a batch that goes on to its next read leaves the state as it is. As long as
  no batch is started while another is in flight, the flag is true exactly while a read
  is outstanding: this holds at startup and every event preserves it.
\<close>

theorem upload_flag_lifecycle:
  "(fa \<noteq> [] \<longrightarrow>
      \<not> uploading (handleFileUpload E s (Some fa))
      \<and> fileInputValue (handleFileUpload E s (Some fa)) = map_option (\<lambda>v. []) (fileInputValue s))
   \<and> (fa \<noteq> [] \<and> upload_start s (Some fa) = (s', None) \<longrightarrow>
      \<not> uploading s' \<and> fileInputValue s' = map_option (\<lambda>v. []) (fileInputValue s))
   \<and> (upload_resume E s p res = (s', None) \<longrightarrow>
      \<not> uploading s' \<and> fileInputValue s' = map_option (\<lambda>v. []) (fileInputValue s))
   \<and> (upload_start s files = (s', Some p') \<longrightarrow> uploading s')
   \<and> (upload_resume E s p res = (s', Some p') \<longrightarrow> s' = s)
   \<and> (length (snd sys) \<le> 1 \<and> flag_tracks_reads sys \<and> (\<forall>fs. ev = Start fs \<longrightarrow> snd sys = []) \<longrightarrow>
      length (snd (step E sys ev)) \<le> 1 \<and> flag_tracks_reads (step E sys ev))
   \<and> flag_tracks_reads (initial_state inp, [])"
proof -
  have 1: "fa \<noteq> [] \<longrightarrow>
      \<not> uploading (handleFileUpload E s (Some fa))
      \<and> fileInputValue (handleFileUpload E s (Some fa)) = map_option (\<lambda>v. []) (fileInputValue s)"
    using handleFileUpload_resolved by blast
  have 2: "fa \<noteq> [] \<and> upload_start s (Some fa) = (s', None) \<longrightarrow>
      \<not> uploading s' \<and> fileInputValue s' = map_option (\<lambda>v. []) (fileInputValue s)"
    using upload_start_resolved by blast
  have 3: "upload_resume E s p res = (s', None) \<longrightarrow>
      \<not> uploading s' \<and> fileInputValue s' = map_option (\<lambda>v. []) (fileInputValue s)"
    using upload_resume_resolved by blast
  have 4: "upload_start s files = (s', Some p') \<longrightarrow> uploading s'"
    using upload_start_pending [of s files s' p'] by auto
  have 5: "upload_resume E s p res = (s', Some p') \<longrightarrow> s' = s"
    using upload_resume_pending by blast
  have 6: "length (snd sys) \<le> 1 \<and> flag_tracks_reads sys \<and> (\<forall>fs. ev = Start fs \<longrightarrow> snd sys = []) \<longrightarrow>
      length (snd (step E sys ev)) \<le> 1 \<and> flag_tracks_reads (step E sys ev)"
    using step_keeps_flag [of sys ev E] by blast
  have 7: "flag_tracks_reads (initial_state inp, [])"
    by (simp add: flag_tracks_reads_def initial_state_def)
  from 1 2 3 4 5 6 7 show ?thesis by blast
qed

text \<open>The theorem at a concrete input.\<close>

theorem upload_flag_lifecycle_witness:
  "\<not> uploading (handleFileUpload env_broken (initial_state (Some ''cat.gif'')) (Some [cat_gif]))
   \<and> fileInputValue (handleFileUpload env_broken (initial_state (Some ''cat.gif'')) (Some [cat_gif])) = Some []
   \<and> flag_tracks_reads (step env_ok (initial_state (Some ''photo.png''), []) (Start (Some [notes_txt, photo_png])))
   \<and> snd (step env_ok (initial_state (Some ''photo.png''), []) (Start (Some [notes_txt, photo_png]))) \<noteq> []"
proof -
  have a: "[cat_gif] \<noteq> []" by simp
  have b: "length (snd (initial_state (Some ''photo.png''), ([] :: pending_read list))) \<le> 1
     \<and> flag_tracks_reads (initial_state (Some ''photo.png''), [])
     \<and> (\<forall>fs. Start (Some [notes_txt, photo_png]) = Start fs \<longrightarrow> snd (initial_state (Some ''photo.png''), ([] :: pending_read list)) = [])"
    by (simp add: flag_tracks_reads_def initial_state_def)
  have c: "snd (step env_ok (initial_state (Some ''photo.png''), []) (Start (Some [notes_txt, photo_png]))) \<noteq> []"
    by (simp add: upload_start_def notes_txt_def photo_png_def startsWith_def)
  from upload_flag_lifecycle [of "[cat_gif]" env_broken "initial_state (Some ''cat.gif'')"] a
  have 1: "\<not> uploading (handleFileUpload env_broken (initial_state (Some ''cat.gif'')) (Some [cat_gif]))
    \<and> fileInputValue (handleFileUpload env_broken (initial_state (Some ''cat.gif'')) (Some [cat_gif])) = Some []"
    by (simp add: initial_state_def)
  from upload_flag_lifecycle [where sys = "(initial_state (Some ''photo.png''), [])"
      and ev = "Start (Some [notes_txt, photo_png])" and E = env_ok] b
  have 2: "flag_tracks_reads (step env_ok (initial_state (Some ''photo.png''), []) (Start (Some [notes_txt, photo_png])))"
    by blast
  from 1 2 c show ?thesis by blast
qed

section \<open>The store: the claims\<close>

text \<open>
  Claim C5. Loading the stored value that saving a collection produced gives back that
  collection: the same records, with the same fields, in the same order. This holds for
  every collection, the empty one included.
\<close>

theorem load_after_save:
  "load_images (save_images s st) s0 = Inr (s0\<lparr>images := images s\<rparr>)"
  by (simp add: load_images_def save_images_def JSON_stringify_nonempty JSON_parse_stringify
      decode_images_to_json)

text \<open>The theorem at a concrete input.\<close>

theorem load_after_save_witness:
  "load_images (save_images (initial_state None\<lparr>images := [img_a, img_b]\<rparr>)
       \<lparr>gallery_images = None, theme = None\<rparr>) (initial_state None)
     = Inr (initial_state None\<lparr>images := [img_a, img_b]\<rparr>)"
  using load_after_save [of "initial_state None\<lparr>images := [img_a, img_b]\<rparr>"
      "\<lparr>gallery_images = None, theme = None\<rparr>" "initial_state None"]
  by simp

text \<open>
  Claim C6, as stated, fails: a stored text can be corrupt and still parse. The texts
  \<open>null\<close>, \<open>{}\<close> and \<open>[{}]\<close> are no collection of records, \<open>JSON.parse\<close> accepts them,
  nothing is thrown for \<open>catch\<close> to catch, and the parsed value goes to \<open>setImages\<close> as
  it is: after loading, \<open>images\<close> is not the empty collection but a value outside its type.
\<close>

theorem load_images_shape_counterexample:
  "load_images \<lparr>gallery_images = Some ''null'', theme = None\<rparr> (initial_state None) = Inl JNull
   \<and> load_images \<lparr>gallery_images = Some ''{}'', theme = None\<rparr> (initial_state None) = Inl (JObj [])
   \<and> load_images \<lparr>gallery_images = Some ''[{}]'', theme = None\<rparr> (initial_state None)
       = Inl (JArr [JObj []])"
proof -
  have "JSON_parse ''null'' = Some JNull" "JSON_parse ''{}'' = Some (JObj [])"
    "JSON_parse ''[{}]'' = Some (JArr [JObj []])"
    by code_simp+
  then show ?thesis
    by (simp add: load_images_def decode_images_def decode_image_def as_string_def)
qed

text \<open>
  Claim C6, amended. When the image slot is absent, holds the empty text or holds a text
  that \<open>JSON.parse\<close> rejects, loading at startup leaves the collection empty; the rejection
  is caught, so the result is a state and not an error.
\<close>

theorem load_images_corrupt:
  assumes "gallery_images st = None \<or> gallery_images st = Some []
     \<or> (\<exists>t. gallery_images st = Some t \<and> JSON_parse t = None)"
  shows "load_images st (initial_state inp) = Inr (initial_state inp)
     \<and> images (initial_state inp) = []"
  using assms by (auto simp: load_images_def initial_state_def)

text \<open>The theorem at a concrete input.\<close>

theorem load_images_corrupt_witness:
  "load_images \<lparr>gallery_images = None, theme = None\<rparr> (initial_state None) = Inr (initial_state None)
   \<and> load_images \<lparr>gallery_images = Some [], theme = None\<rparr> (initial_state None) = Inr (initial_state None)
   \<and> load_images \<lparr>gallery_images = Some ''{not json'', theme = None\<rparr> (initial_state None)
       = Inr (initial_state None)"
proof -
  have 3: "\<exists>t. gallery_images \<lparr>gallery_images = Some ''{not json'', theme = None\<rparr> = Some t
      \<and> JSON_parse t = None"
    using JSON_parse_garbage by simp
  from load_images_corrupt [of "\<lparr>gallery_images = None, theme = None\<rparr>" None]
    load_images_corrupt [of "\<lparr>gallery_images = Some [], theme = None\<rparr>" None]
    load_images_corrupt [of "\<lparr>gallery_images = Some ''{not json'', theme = None\<rparr>" None] 3
  show ?thesis by simp
qed

end
